theory Spec2Isabelle
  imports Complex_Main "HOL-Library.Word" "HOL-Library.Multiset"
begin

unbundle bit_operations_syntax

section \<open>The file integrity monitor of main.go\<close>

text \<open>
  The program walks the configured folders, sends one descriptor per regular file to a pool
  of workers, which checksum the file and send an \<open>item\<close> to the \<open>Outputter\<close>; the
  \<open>Outputter\<close> compares each item with the snapshot of the previous run (\<open>globalI\<close>) and
  builds the snapshot of this run (\<open>globalO\<close>) and the two change lists.
\<close>

subsection \<open>Data (main.go, lines 28-63)\<close>

text \<open>\<open>type item struct { File string; Checksum string }\<close>\<close>

record item =
  File :: string
  Checksum :: string

text \<open>
  The globals the \<open>Outputter\<close> works on: \<open>globalI\<close> is filled from the storage file
  (line 181) and never written again, \<open>globalO\<close> starts as the empty map (line 57),
  \<open>globalDiff\<close> and \<open>newfiles\<close> start as nil slices (lines 58-59).
\<close>

record globals =
  globalI :: "string \<rightharpoonup> string"
  globalO :: "string \<rightharpoonup> string"
  globalDiff :: "string list"
  newfiles :: "string list"

definition init_globals :: "(string \<rightharpoonup> string) \<Rightarrow> globals" where
  "init_globals prior =
     \<lparr>globalI = prior, globalO = Map.empty, globalDiff = [], newfiles = []\<rparr>"

subsection \<open>The Outputter (main.go, lines 148-168)\<close>

text \<open>
  Lines 156-165, the part of one iteration between \<open>globalL.Lock()\<close> and
  \<open>globalL.Unlock()\<close>.
\<close>

definition Outputter_body :: "globals \<Rightarrow> item \<Rightarrow> globals" where
  "Outputter_body g out =
     (let g1 = (case globalI g (File out) of
                  Some v \<Rightarrow>
                    (if v \<noteq> Checksum out
                     then g\<lparr>globalDiff := globalDiff g @ [File out]\<rparr>
                     else g)
                | None \<Rightarrow> g\<lparr>newfiles := newfiles g @ [File out]\<rparr>)
      in g1\<lparr>globalO := (globalO g1)(File out \<mapsto> Checksum out)\<rparr>)"

text \<open>
  The loop of lines 151-167 over the items that arrive on \<open>outq\<close>, in their order of
  arrival: an item whose \<open>File\<close> is empty ends the loop (lines 153-155), the items
  behind it are not received.
\<close>

fun Outputter :: "globals \<Rightarrow> item list \<Rightarrow> globals" where
  "Outputter g [] = g"
| "Outputter g (out # outq) =
     (if length (File out) = 0 then g else Outputter (Outputter_body g out) outq)"

subsection \<open>The checksum function (main.go, lines 85-108)\<close>

text \<open>
  A file's contents, the buffers read from it and the input of the hash are sequences of
  bytes; path names, checksums and messages are strings.
\<close>

type_synonym byte = "8 word"

text \<open>
  \<open>type fInfo struct { name string; sz int64; mode os.FileMode; modTime time.Time }\<close>.
  \<open>sz\<close> is the \<open>Size()\<close> of a file as \<open>os.Lstat\<close> reports it: a byte count, never
  negative, below \<open>2 ^ 63\<close>. \<open>os.FileMode\<close> is a \<open>uint32\<close>.
\<close>

record fInfo =
  name :: string
  sz :: nat
  mode :: "32 word"
  modTime :: int

text \<open>\<open>const CHUNKSIZE uint64 = 8192\<close>\<close>

definition CHUNKSIZE :: nat where
  "CHUNKSIZE = 8192"

text \<open>
  The conversion \<open>float64(x)\<close> of an integer: a \<open>float64\<close> has a significand of 53
  bits, so an integer below \<open>2 ^ 53\<close> is converted exactly and a larger one is rounded to
  the nearest multiple of \<open>2 ^ e\<close>, where \<open>e\<close> is the number of bits it has beyond 53, ties
  going to the even significand. The value of a \<open>float64\<close> is a real number here; the
  other operations the function applies to one (division by \<open>8192\<close>, \<open>math.Ceil\<close>,
  \<open>math.Min\<close>, conversion back to an integer) are exact on the values they meet.
\<close>

function float64_exponent :: "nat \<Rightarrow> nat" where
  "float64_exponent n = (if n < 2 ^ 53 then 0 else Suc (float64_exponent (n div 2)))"
  by pat_completeness auto
termination
  by (relation "measure (\<lambda>n. n)") auto

declare float64_exponent.simps [simp del]

definition float64_of_nat :: "nat \<Rightarrow> nat" where
  "float64_of_nat n =
     (let e = float64_exponent n; q = n div 2 ^ e; r = n mod 2 ^ e
      in (if 2 * r < 2 ^ e \<or> (2 * r = 2 ^ e \<and> even q) then q else q + 1) * 2 ^ e)"

definition float64 :: "int \<Rightarrow> real" where
  "float64 x = (if x < 0 then - real (float64_of_nat (nat (- x)))
                else real (float64_of_nat (nat x)))"

definition math_Ceil :: "real \<Rightarrow> real" where
  "math_Ceil x = of_int \<lceil>x\<rceil>"

definition math_Min :: "real \<Rightarrow> real \<Rightarrow> real" where
  "math_Min x y = min x y"

text \<open>\<open>uint64(x)\<close> and \<open>int(x)\<close> of a \<open>float64\<close> drop the fraction.\<close>

definition uint64_of_float :: "real \<Rightarrow> nat" where
  "uint64_of_float x = nat \<lfloor>x\<rfloor>"

definition int_of_float :: "real \<Rightarrow> int" where
  "int_of_float x = (if x < 0 then \<lceil>x\<rceil> else \<lfloor>x\<rfloor>)"

text \<open>
  \<open>os.Open\<close>: the files of the machine are a function from a path name to the contents
  of the file there, or to the reason it cannot be opened. A failed \<open>os.Open\<close> returns a
  \<open>*PathError\<close>, which \<open>fmt.Sprintf("%v", err)\<close> prints with its \<open>Error\<close> method:
  \<open>e.Op + " " + e.Path + ": " + e.Err.Error()\<close>.
\<close>

record PathError =
  Op :: string
  Path :: string
  Err :: string

definition PathError_Error :: "PathError \<Rightarrow> string" where
  "PathError_Error e = Op e @ '' '' @ Path e @ '': '' @ Err e"

type_synonym files = "string \<Rightarrow> string + byte list"

definition os_Open :: "files \<Rightarrow> string \<Rightarrow> PathError + byte list" where
  "os_Open fs pathname =
     (case fs pathname of
        Inl reason \<Rightarrow> Inl \<lparr>Op = ''open'', Path = pathname, Err = reason\<rparr>
      | Inr contents \<Rightarrow> Inr contents)"

text \<open>
  \<open>buf := make([]byte, blocksize); file.Read(buf)\<close>: an open file is the bytes not read
  yet. \<open>Read\<close> fills the front of the buffer with the bytes it reads, as many as the
  buffer holds or as are left; the function ignores the count and the error \<open>Read\<close>
  returns, so the rest of the buffer keeps the zeros \<open>make\<close> put there. The result is
  the buffer after the call and the file after it.
\<close>

definition file_Read :: "byte list \<Rightarrow> nat \<Rightarrow> byte list \<times> byte list" where
  "file_Read file blocksize =
     (take blocksize file @ replicate (blocksize - length file) 0, drop blocksize file)"

text \<open>\<open>make\<close> panics when the length is negative.\<close>

datatype panic = MakesliceLenOutOfRange | NilPointerDereference

text \<open>
  The loop of lines 99-105. \<open>hash\<close> is what has been written to the SHA-1 state since
  \<open>sha1.New()\<close>: \<open>io.WriteString(hash, string(buf))\<close> appends the buffer to it.
\<close>

function read_loop ::
  "nat \<Rightarrow> nat \<Rightarrow> nat \<Rightarrow> byte list \<Rightarrow> byte list \<Rightarrow> panic + byte list" where
  "read_loop filesize blocks i file hash =
     (if i < blocks then
        (let blocksize = int_of_float (math_Min (float64 (int CHUNKSIZE))
                           (float64 (int filesize - int (i * CHUNKSIZE))))
         in if blocksize < 0 then Inl MakesliceLenOutOfRange
            else (let (buf, file') = file_Read file (nat blocksize)
                  in read_loop filesize blocks (i + 1) file' (hash @ buf)))
      else Inr hash)"
  by pat_completeness auto
termination
  by (relation "measure (\<lambda>(filesize, blocks, i, file, hash). blocks - i)") auto

declare read_loop.simps [simp del]

text \<open>
  \<open>hex.EncodeToString\<close>: two characters of \<open>hextable\<close> for each byte, \<open>v >> 4\<close> first,
  \<open>v & 0x0f\<close> second.
\<close>

definition hextable :: string where
  "hextable = ''0123456789abcdef''"

definition hex_EncodeToString :: "byte list \<Rightarrow> string" where
  "hex_EncodeToString src =
     concat (map (\<lambda>v. [hextable ! unat (drop_bit 4 v), hextable ! unat (v AND 0x0f)]) src)"

text \<open>
  The function itself. \<open>sha1_Sum\<close> is the SHA-1 digest of a sequence of bytes (package
  \<open>crypto/sha1\<close>, a parameter here): \<open>hash.Sum(nil)\<close> is the digest of everything written
  to \<open>hash\<close>. The arguments \<open>threadID\<close> and \<open>err\<close> are not used.
\<close>

definition checkSumSHA1 ::
  "(byte list \<Rightarrow> byte list) \<Rightarrow> files \<Rightarrow> nat \<Rightarrow> string \<Rightarrow> fInfo \<Rightarrow> panic + string" where
  "checkSumSHA1 sha1_Sum fs threadID pathname fi =
     (let filesize = sz fi
      in case os_Open fs pathname of
           Inl err \<Rightarrow> Inr (PathError_Error err)
         | Inr file \<Rightarrow>
             (let blocks = uint64_of_float
                             (math_Ceil (float64 (int filesize) / float64 (int CHUNKSIZE)))
              in case read_loop filesize blocks 0 file [] of
                   Inl p \<Rightarrow> Inl p
                 | Inr hash \<Rightarrow> Inr (hex_EncodeToString (sha1_Sum hash))))"

text \<open>
  The invariant of claim C10: every path in \<open>newfiles\<close> or in \<open>globalDiff\<close> has an entry
  in \<open>globalO\<close>.
\<close>

definition lists_within_snapshot :: "globals \<Rightarrow> bool" where
  "lists_within_snapshot g \<longleftrightarrow>
     set (newfiles g) \<union> set (globalDiff g) \<subseteq> dom (globalO g)"

subsection \<open>The walker (main.go, lines 65-72 and 111-130)\<close>

text \<open>
  What the program reads of an \<open>os.FileInfo\<close>: \<open>Name()\<close> (the base name of the entry),
  \<open>Size()\<close>, \<open>Mode()\<close> and \<open>ModTime()\<close>. \<open>IsDir()\<close> is the bit \<open>os.ModeDir\<close> of the mode;
  \<open>os.ModeDir\<close> is \<open>1 << 31\<close> and \<open>os.ModeSymlink\<close> is \<open>1 << 27\<close>.
\<close>

record FileInfo =
  Name :: string
  Size :: nat
  Mode :: "32 word"
  ModTime :: int

definition ModeDir :: "32 word" where
  "ModeDir = push_bit 31 1"

definition ModeSymlink :: "32 word" where
  "ModeSymlink = push_bit 27 1"

definition IsDir :: "FileInfo \<Rightarrow> bool" where
  "IsDir f \<longleftrightarrow> Mode f AND ModeDir \<noteq> 0"

text \<open>Lines 65-72.\<close>

primrec inSlice :: "string list \<Rightarrow> string \<Rightarrow> bool" where
  "inSlice [] word = False"
| "inSlice (w # words) word = (if word = w then True else inSlice words word)"

text \<open>
  The walk function returns \<open>nil\<close> (\<open>None\<close> here) or \<open>filepath.SkipDir\<close>. It appends to
  \<open>ferrors\<close> and sends descriptors on \<open>wrkQueue\<close>: the state of the walk is \<open>ferrors\<close>
  and the sequence of descriptors sent on \<open>wrkQueue\<close> so far. \<open>conf.Ignored\<close> and
  \<open>currentRoot\<close> are arguments.
\<close>

datatype walk_error = SkipDir

record walk_state =
  ferrors :: "string list"
  wrkQueue :: "fInfo list"

definition walkPathNSum ::
  "string list \<Rightarrow> string \<Rightarrow> string \<Rightarrow> FileInfo option \<Rightarrow> walk_state
     \<Rightarrow> walk_error option \<times> walk_state" where
  "walkPathNSum Ignored currentRoot pathname f st =
     (case f of
        None \<Rightarrow> (None, st\<lparr>ferrors := ferrors st @ [''can't read '' @ pathname]\<rparr>)
      | Some fi \<Rightarrow>
          if inSlice Ignored (currentRoot @ Name fi) then (Some SkipDir, st)
          else if Mode fi AND ModeSymlink \<noteq> 0 then (None, st)
          else if IsDir fi then (None, st)
          else (None, st\<lparr>wrkQueue := wrkQueue st @
                  [\<lparr>name = pathname, sz = Size fi, mode = Mode fi, modTime = ModTime fi\<rparr>]\<rparr>))"

subsection \<open>filepath.Walk and the loop over the folders (main.go, lines 208-224)\<close>

text \<open>
  \<open>filepath.Walk\<close> belongs to the Go library; it is modelled from its source
  (\<open>path/filepath/path.go\<close>). What it finds on disk is a tree: \<open>NoInfo n\<close> is an entry
  named \<open>n\<close> on which \<open>os.Lstat\<close> fails; \<open>Node fi readable entries\<close> is an entry with
  the \<open>Lstat\<close> result \<open>fi\<close> and, when it is a directory, its entries in the order
  \<open>readDirNames\<close> lists them; \<open>readable\<close> is false when \<open>readDirNames\<close> fails.
  \<open>Lstat\<close> does not follow a symbolic link, which is no directory for it.
\<close>

datatype node = NoInfo string | Node FileInfo bool "node list"

text \<open>
  \<open>filepath.Clean\<close> and \<open>filepath.Join\<close> of the Go library, for paths with \<open>/\<close> as the
  separator. \<open>path_elements\<close> cuts a path at its separators. \<open>clean_elements\<close> drops the
  empty elements and the \<open>.\<close> elements and lets a \<open>..\<close> element take away the element
  before it; \<open>out\<close> holds the elements kept so far, the last one first. A \<open>..\<close> that has
  nothing to take away is dropped in a rooted path and kept in another.
\<close>

fun path_elements :: "string \<Rightarrow> string \<Rightarrow> string list" where
  "path_elements element [] = [rev element]"
| "path_elements element (c # cs) =
     (if c = CHR ''/'' then rev element # path_elements [] cs
      else path_elements (c # element) cs)"

fun clean_elements :: "bool \<Rightarrow> string list \<Rightarrow> string list \<Rightarrow> string list" where
  "clean_elements rooted out [] = rev out"
| "clean_elements rooted out (e # es) =
     (if e = [] \<or> e = ''.'' then clean_elements rooted out es
      else if e = ''..'' then
        (case out of
           [] \<Rightarrow> if rooted then clean_elements rooted out es
                 else clean_elements rooted (e # out) es
         | kept # before \<Rightarrow>
             if kept = ''..'' then clean_elements rooted (e # out) es
             else clean_elements rooted before es)
      else clean_elements rooted (e # out) es)"

fun join_elements :: "string list \<Rightarrow> string" where
  "join_elements [] = []"
| "join_elements [e] = e"
| "join_elements (e # es) = e @ ''/'' @ join_elements es"

definition filepath_Clean :: "string \<Rightarrow> string" where
  "filepath_Clean path =
     (if path = [] then ''.''
      else (let rooted = (hd path = CHR ''/'');
                out = join_elements (clean_elements rooted [] (path_elements [] path))
            in if rooted then ''/'' @ out
               else if out = [] then ''.''
               else out))"

definition filepath_Join :: "string \<Rightarrow> string \<Rightarrow> string" where
  "filepath_Join dir entry =
     (if dir \<noteq> [] then filepath_Clean (dir @ ''/'' @ entry)
      else if entry \<noteq> [] then filepath_Clean entry
      else [])"

text \<open>
  \<open>walk\<close> calls the walk function on the entry, and for a directory that can be read
  and for which the function returned \<open>nil\<close> it goes through the entries. A \<open>SkipDir\<close>
  from a directory ends that directory only; a \<open>SkipDir\<close> from another entry ends the
  directory that holds it.
\<close>

fun walk ::
    "(string \<Rightarrow> FileInfo option \<Rightarrow> 's \<Rightarrow> walk_error option \<times> 's) \<Rightarrow> string \<Rightarrow> node \<Rightarrow> 's
       \<Rightarrow> walk_error option \<times> 's"
  and walk_names ::
    "(string \<Rightarrow> FileInfo option \<Rightarrow> 's \<Rightarrow> walk_error option \<times> 's) \<Rightarrow> string \<Rightarrow> node list \<Rightarrow> 's
       \<Rightarrow> walk_error option \<times> 's" where
  "walk walkFn path (NoInfo n) st = walkFn path None st"
| "walk walkFn path (Node info readable entries) st =
     (if \<not> IsDir info then walkFn path (Some info) st
      else (case walkFn path (Some info) st of
              (err1, st1) \<Rightarrow>
                if \<not> readable \<or> err1 \<noteq> None then (err1, st1)
                else walk_names walkFn path entries st1))"
| "walk_names walkFn path [] st = (None, st)"
| "walk_names walkFn path (NoInfo n # entries) st =
     (case walkFn (filepath_Join path n) None st of
        (err, st1) \<Rightarrow>
          if err \<noteq> None \<and> err \<noteq> Some SkipDir then (err, st1)
          else walk_names walkFn path entries st1)"
| "walk_names walkFn path (Node info readable sub # entries) st =
     (case walk walkFn (filepath_Join path (Name info)) (Node info readable sub) st of
        (err, st1) \<Rightarrow>
          if err \<noteq> None \<and> (\<not> IsDir info \<or> err \<noteq> Some SkipDir) then (err, st1)
          else walk_names walkFn path entries st1)"

text \<open>
  \<open>filepath.Walk(root, fn)\<close>; the second argument is what \<open>os.Lstat(root)\<close> finds. The
  program ignores the error \<open>Walk\<close> returns.
\<close>

definition filepath_Walk ::
  "(string \<Rightarrow> FileInfo option \<Rightarrow> 's \<Rightarrow> walk_error option \<times> 's) \<Rightarrow> string \<Rightarrow> node \<Rightarrow> 's \<Rightarrow> 's" where
  "filepath_Walk fn rootpath found st = snd (walk fn rootpath found st)"

text \<open>
  The loop of lines 208-224 over \<open>conf.Folders\<close>; \<open>rootpath\<close> and \<open>root1\<close> are the
  variable \<open>root\<close> before and after line 220. \<open>lstat\<close> is what \<open>os.Lstat\<close> finds at
  a path, \<open>evalSymlinks\<close> the result of \<open>filepath.EvalSymlinks\<close> (\<open>None\<close> for an error,
  after which \<open>target\<close> is the empty string). When \<open>os.Lstat(root)\<close> fails, \<open>fileInfo\<close> is
  nil and line 214 panics.
\<close>

fun walk_folders ::
  "string list \<Rightarrow> (string \<Rightarrow> node) \<Rightarrow> (string \<Rightarrow> string option) \<Rightarrow> string list \<Rightarrow> walk_state
     \<Rightarrow> panic + walk_state" where
  "walk_folders Ignored lstat evalSymlinks [] st = Inr st"
| "walk_folders Ignored lstat evalSymlinks (rootpath # Folders) st =
     (case lstat rootpath of
        NoInfo n \<Rightarrow> Inl NilPointerDereference
      | Node fileInfo readable entries \<Rightarrow>
          (let root1 = (if Mode fileInfo AND ModeSymlink \<noteq> 0
                        then (case evalSymlinks rootpath of Some target \<Rightarrow> target | None \<Rightarrow> [])
                        else rootpath);
               currentRoot = root1
           in walk_folders Ignored lstat evalSymlinks Folders
                (filepath_Walk (walkPathNSum Ignored currentRoot) root1 (lstat root1) st)))"

text \<open>
  The invariant behind claim C7: no descriptor sent on \<open>wrkQueue\<close> has the bit
  \<open>os.ModeSymlink\<close> in its mode.
\<close>

definition no_symlink_queued :: "walk_state \<Rightarrow> bool" where
  "no_symlink_queued st \<longleftrightarrow> (\<forall>f \<in> set (wrkQueue st). mode f AND ModeSymlink = 0)"

subsection \<open>Two file systems for the examples\<close>

text \<open>
  The configuration of the usage message (lines 173-174): the folder \<open>/folder/a\<close> holds
  the directory \<open>var\<close>, which holds the file \<open>x\<close>. The modes are \<open>os.ModeDir | 0755\<close> and
  \<open>0644\<close>.
\<close>

definition usage_lstat :: "string \<Rightarrow> node" where
  "usage_lstat p =
     (if p = ''/folder/a'' then
        Node \<lparr>Name = ''a'', Size = 4096, Mode = 2147484141, ModTime = 0\<rparr> True
          [Node \<lparr>Name = ''var'', Size = 4096, Mode = 2147484141, ModTime = 0\<rparr> True
             [Node \<lparr>Name = ''x'', Size = 3, Mode = 420, ModTime = 0\<rparr> False []]]
      else NoInfo p)"

text \<open>
  A deployment as the README describes it: the configured folder \<open>/www/live\<close> is a
  symbolic link (mode \<open>os.ModeSymlink | 0777\<close>) to the release directory \<open>/www/rel/7\<close>,
  which holds a directory \<open>cache\<close> with a file, the file \<open>index.php\<close> and a symbolic
  link \<open>shared\<close>.
\<close>

definition deploy_lstat :: "string \<Rightarrow> node" where
  "deploy_lstat p =
     (if p = ''/www/live'' then
        Node \<lparr>Name = ''live'', Size = 12, Mode = 134218239, ModTime = 0\<rparr> False []
      else if p = ''/www/rel/7'' then
        Node \<lparr>Name = ''7'', Size = 4096, Mode = 2147484141, ModTime = 0\<rparr> True
          [Node \<lparr>Name = ''cache'', Size = 4096, Mode = 2147484141, ModTime = 0\<rparr> True
             [Node \<lparr>Name = ''tmp'', Size = 9, Mode = 420, ModTime = 0\<rparr> False []],
           Node \<lparr>Name = ''index.php'', Size = 3, Mode = 420, ModTime = 0\<rparr> False [],
           Node \<lparr>Name = ''shared'', Size = 14, Mode = 134218239, ModTime = 0\<rparr> False []]
      else NoInfo p)"

definition deploy_evalSymlinks :: "string \<Rightarrow> string option" where
  "deploy_evalSymlinks p = (if p = ''/www/live'' then Some ''/www/rel/7'' else None)"

subsection \<open>The goroutines (main.go, lines 133-145, 148-168 and 200-234)\<close>

text \<open>
  \<open>main\<close> starts \<open>*nPtr\<close> workers and the \<open>Outputter\<close>, walks the folders, sends one
  \<open>nil\<close> per worker, waits for the \<open>WaitGroup\<close>, sleeps three seconds and writes
  \<open>globalO\<close> to the storage file. The goroutines run interleaved; both channels are
  unbuffered (lines 53-54), so a send and the matching receive are one step. The state of
  the program is the place each goroutine is at, with the variables they share.

  \<open>type checksumWorkerFunction func(int, string, *fInfo, error) string\<close>; the workers
  pass a nil error (line 135), which is left out.
\<close>

type_synonym checksumWorkerFunction = "nat \<Rightarrow> string \<Rightarrow> fInfo \<Rightarrow> string"

text \<open>
  A worker (lines 137-144) is at the receive of line 138 (\<open>AtReceive\<close>); or it has
  received a descriptor, called \<open>cwf\<close> and is at the send of line 143 with the item
  (\<open>AtSend\<close>); or it has received \<open>nil\<close> and is before \<open>wg.Done()\<close>, line 140 (\<open>AtDone\<close>); or
  it has called \<open>wg.Done()\<close> and left the loop (\<open>Returned\<close>).
\<close>

datatype worker = AtReceive | AtSend item | AtDone | Returned

text \<open>
  The \<open>Outputter\<close> is at the receive of line 152 (\<open>OutReceive\<close>), or it has received
  an item and has lines 153-165 to run (\<open>OutGot\<close>), or it has left its loop by the
  \<open>break\<close> of line 154 (\<open>OutReturned\<close>).
\<close>

datatype outputter = OutReceive | OutGot item | OutReturned

text \<open>
  \<open>main\<close>, once the goroutines are started: in the loop of lines 208-224, with the
  descriptors the walks still have to send on \<open>wrkQueue\<close> (\<open>Walking\<close>; the walks
  themselves are \<open>walk_folders\<close> above); in the loop of lines 226-228 with its counter \<open>i\<close>
  (\<open>Sentinels\<close>); at \<open>wg.Wait()\<close>, line 229 (\<open>Waiting\<close>); in \<open>time.Sleep\<close>, line 230
  (\<open>Sleeping\<close>); past lines 232-234, the snapshot written (\<open>Finished\<close>). The rest of
  \<open>main\<close> reports the two lists and returns, which ends the program and every goroutine
  with it.
\<close>

datatype main_pc = Walking "fInfo list" | Sentinels nat | Waiting | Sleeping | Finished

record program =
  pc :: main_pc
  workers :: "worker list"
  outp :: outputter
  wg :: nat
  glob :: globals
  storage :: "(string \<rightharpoonup> string) option"

text \<open>
  The state after lines 200-206: \<open>N\<close> workers started, \<open>wg\<close> at \<open>N\<close>, the \<open>Outputter\<close>
  started, \<open>globalI\<close> read from the storage file, nothing written to it yet.
\<close>

definition init_program :: "nat \<Rightarrow> (string \<rightharpoonup> string) \<Rightarrow> fInfo list \<Rightarrow> program" where
  "init_program N prior queue =
     \<lparr>pc = Walking queue, workers = replicate N AtReceive, outp = OutReceive, wg = N,
      glob = init_globals prior, storage = None\<rparr>"

text \<open>Line 143: the result worker \<open>j\<close> makes of a descriptor.\<close>

definition result_of :: "checksumWorkerFunction \<Rightarrow> nat \<Rightarrow> fInfo \<Rightarrow> item" where
  "result_of cwf j fileToCheck =
     \<lparr>File = name fileToCheck, Checksum = cwf j (name fileToCheck) fileToCheck\<rparr>"

text \<open>
  The steps. \<open>N\<close> is \<open>*nPtr\<close>. Nothing in the program orders the end of \<open>time.Sleep\<close>
  and the steps of the \<open>Outputter\<close>: Go promises that the sleep lasts at least three
  seconds, and nothing about when another goroutine runs. So \<open>sleep_over\<close> can be taken
  whenever \<open>main\<close> is in the sleep.
\<close>

inductive step :: "checksumWorkerFunction \<Rightarrow> nat \<Rightarrow> program \<Rightarrow> program \<Rightarrow> bool"
  for cwf :: checksumWorkerFunction and N :: nat where
  send_work: \<comment> \<open>line 128 with line 138, then line 143 up to the send\<close>
    "pc s = Walking (f # fs) \<Longrightarrow> j < length (workers s) \<Longrightarrow> workers s ! j = AtReceive \<Longrightarrow>
     step cwf N s
       (s\<lparr>pc := Walking fs,
          workers := (workers s)[j := AtSend (result_of cwf j f)]\<rparr>)"
| walk_over: \<comment> \<open>the loop of lines 208-224 ends\<close>
    "pc s = Walking [] \<Longrightarrow> step cwf N s (s\<lparr>pc := Sentinels 0\<rparr>)"
| send_nil: \<comment> \<open>line 227 with line 138\<close>
    "pc s = Sentinels i \<Longrightarrow> i < N \<Longrightarrow> j < length (workers s) \<Longrightarrow> workers s ! j = AtReceive \<Longrightarrow>
     step cwf N s (s\<lparr>pc := Sentinels (i + 1), workers := (workers s)[j := AtDone]\<rparr>)"
| sentinels_over: \<comment> \<open>the loop of lines 226-228 ends\<close>
    "pc s = Sentinels i \<Longrightarrow> \<not> i < N \<Longrightarrow> step cwf N s (s\<lparr>pc := Waiting\<rparr>)"
| worker_done: \<comment> \<open>lines 140-141\<close>
    "j < length (workers s) \<Longrightarrow> workers s ! j = AtDone \<Longrightarrow> pc s \<noteq> Finished \<Longrightarrow>
     step cwf N s (s\<lparr>workers := (workers s)[j := Returned], wg := wg s - 1\<rparr>)"
| wait_over: \<comment> \<open>line 229\<close>
    "pc s = Waiting \<Longrightarrow> wg s = 0 \<Longrightarrow> step cwf N s (s\<lparr>pc := Sleeping\<rparr>)"
| sleep_over: \<comment> \<open>lines 230-234\<close>
    "pc s = Sleeping \<Longrightarrow>
     step cwf N s (s\<lparr>pc := Finished, storage := Some (globalO (glob s))\<rparr>)"
| worker_send: \<comment> \<open>line 143 with line 152\<close>
    "j < length (workers s) \<Longrightarrow> workers s ! j = AtSend out \<Longrightarrow> outp s = OutReceive \<Longrightarrow>
     pc s \<noteq> Finished \<Longrightarrow>
     step cwf N s (s\<lparr>workers := (workers s)[j := AtReceive], outp := OutGot out\<rparr>)"
| out_body: \<comment> \<open>lines 153-165\<close>
    "outp s = OutGot out \<Longrightarrow> length (File out) \<noteq> 0 \<Longrightarrow> pc s \<noteq> Finished \<Longrightarrow>
     step cwf N s (s\<lparr>outp := OutReceive, glob := Outputter_body (glob s) out\<rparr>)"
| out_break: \<comment> \<open>lines 153-155\<close>
    "outp s = OutGot out \<Longrightarrow> length (File out) = 0 \<Longrightarrow> pc s \<noteq> Finished \<Longrightarrow>
     step cwf N s (s\<lparr>outp := OutReturned\<rparr>)"

text \<open>The states a run of the program can be in.\<close>

inductive reachable ::
  "checksumWorkerFunction \<Rightarrow> nat \<Rightarrow> (string \<rightharpoonup> string) \<Rightarrow> fInfo list \<Rightarrow> program \<Rightarrow> bool"
  for cwf :: checksumWorkerFunction and N :: nat
    and prior :: "string \<rightharpoonup> string" and queue :: "fInfo list" where
  start: "reachable cwf N prior queue (init_program N prior queue)"
| after: "reachable cwf N prior queue s \<Longrightarrow> step cwf N s s' \<Longrightarrow> reachable cwf N prior queue s'"

text \<open>The number of workers that have received a \<open>nil\<close>.\<close>

definition sentinels_received :: "program \<Rightarrow> nat" where
  "sentinels_received s = length (filter (\<lambda>w. w = AtDone \<or> w = Returned) (workers s))"

text \<open>
  The results on their way: the items of the workers at their send, and the item the
  \<open>Outputter\<close> has received and not processed; and the descriptors not sent yet.
\<close>

fun held :: "worker \<Rightarrow> item list" where
  "held (AtSend out) = [out]"
| "held w = []"

definition in_flight :: "program \<Rightarrow> item multiset" where
  "in_flight s =
     mset (concat (map held (workers s))) +
     (case outp s of OutGot out \<Rightarrow> {#out#} | _ \<Rightarrow> {#})"

definition pending :: "program \<Rightarrow> fInfo list" where
  "pending s = (case pc s of Walking fs \<Rightarrow> fs | _ \<Rightarrow> [])"

text \<open>
  The invariant behind claim C6: there are \<open>N\<close> workers; the counter of the
  \<open>WaitGroup\<close> is the number of workers that have not returned; no worker has a \<open>nil\<close>
  while \<open>main\<close> walks, \<open>i\<close> workers have one when the counter of the loop of line 226
  is \<open>i\<close>, all have one afterwards; and every worker has returned once \<open>main\<close> is past
  \<open>wg.Wait()\<close>.
\<close>

definition shutdown_inv :: "nat \<Rightarrow> program \<Rightarrow> bool" where
  "shutdown_inv N s \<longleftrightarrow>
     length (workers s) = N \<and>
     wg s = length (filter (\<lambda>w. w \<noteq> Returned) (workers s)) \<and>
     (case pc s of
        Walking fs \<Rightarrow> sentinels_received s = 0
      | Sentinels i \<Rightarrow> sentinels_received s = i \<and> i \<le> N
      | _ \<Rightarrow> sentinels_received s = N) \<and>
     (pc s = Sleeping \<or> pc s = Finished \<longrightarrow> (\<forall>w \<in> set (workers s). w = Returned))"

text \<open>
  For the progress of the shutdown (claim C6): a measure of the work a state has left,
  which every step makes smaller. A descriptor counts three while it waits to be sent,
  two in the hands of a worker, one in the hands of the \<open>Outputter\<close>; a worker counts two
  before its \<open>nil\<close>, one with it, nothing once returned; \<open>main\<close> counts the phases it has
  before it.
\<close>

fun worker_weight :: "worker \<Rightarrow> nat" where
  "worker_weight AtReceive = 2"
| "worker_weight (AtSend out) = 4"
| "worker_weight AtDone = 1"
| "worker_weight Returned = 0"

fun outputter_weight :: "outputter \<Rightarrow> nat" where
  "outputter_weight (OutGot out) = 1"
| "outputter_weight ou = 0"

fun main_weight :: "main_pc \<Rightarrow> nat" where
  "main_weight (Walking fs) = 4 + 3 * length fs"
| "main_weight (Sentinels i) = 3"
| "main_weight Waiting = 2"
| "main_weight Sleeping = 1"
| "main_weight Finished = 0"

definition work_left :: "program \<Rightarrow> nat" where
  "work_left s =
     main_weight (pc s) + sum_list (map worker_weight (workers s)) + outputter_weight (outp s)"

text \<open>
  No result on its way has an empty \<open>File\<close>, and the \<open>Outputter\<close> has not left its loop:
  so it is when every descriptor of the walks has a name.
\<close>

definition results_named :: "program \<Rightarrow> bool" where
  "results_named s \<longleftrightarrow>
     outp s \<noteq> OutReturned \<and>
     (\<forall>out. outp s = OutGot out \<longrightarrow> File out \<noteq> []) \<and>
     (\<forall>out. AtSend out \<in> set (workers s) \<longrightarrow> File out \<noteq> []) \<and>
     (\<forall>f \<in> set (pending s). name f \<noteq> [])"

text \<open>
  \<open>always_finishes\<close>: \<open>main\<close> is past line 234, or a step is possible and every possible
  step leads to a state that always finishes. A state of which this holds has no run
  that stops or goes on for ever before \<open>main\<close> is through.
\<close>

inductive always_finishes :: "checksumWorkerFunction \<Rightarrow> nat \<Rightarrow> program \<Rightarrow> bool"
  for cwf :: checksumWorkerFunction and N :: nat where
  there: "pc s = Finished \<Longrightarrow> always_finishes cwf N s"
| onward: "\<exists>s'. step cwf N s s' \<Longrightarrow> \<forall>s'. step cwf N s s' \<longrightarrow> always_finishes cwf N s' \<Longrightarrow>
     always_finishes cwf N s"



section \<open>Properties\<close>

subsection \<open>Properties of the Outputter\<close>

lemma Outputter_body_globalI [simp]: "globalI (Outputter_body g out) = globalI g"
  by (simp add: Outputter_body_def Let_def split: option.splits)

lemma Outputter_body_globalO [simp]:
  "globalO (Outputter_body g out) = (globalO g)(File out \<mapsto> Checksum out)"
  by (simp add: Outputter_body_def Let_def split: option.splits)

lemma Outputter_body_newfiles:
  "newfiles (Outputter_body g out) =
     (if globalI g (File out) = None then newfiles g @ [File out] else newfiles g)"
  by (simp add: Outputter_body_def Let_def split: option.splits)

lemma Outputter_body_globalDiff:
  "globalDiff (Outputter_body g out) =
     (if \<exists>v. globalI g (File out) = Some v \<and> v \<noteq> Checksum out
      then globalDiff g @ [File out] else globalDiff g)"
  by (simp add: Outputter_body_def Let_def split: option.splits)

lemma Outputter_globalI [simp]: "globalI (Outputter g outq) = globalI g"
  by (induction outq arbitrary: g) simp_all

lemma Outputter_append:
  "\<forall>out \<in> set pre. File out \<noteq> [] \<Longrightarrow>
     Outputter g (pre @ post) = Outputter (Outputter g pre) post"
  by (induction pre arbitrary: g) simp_all

lemma Outputter_snoc:
  assumes "\<forall>x \<in> set pre. File x \<noteq> []" and "File out \<noteq> []"
  shows "Outputter g (pre @ [out]) = Outputter_body (Outputter g pre) out"
  using assms by (simp add: Outputter_append)

lemma Outputter_globalO_other:
  "p \<notin> File ` set outq \<Longrightarrow> globalO (Outputter g outq) p = globalO g p"
  by (induction outq arbitrary: g) auto

lemma Outputter_newfiles_subset:
  "set (newfiles (Outputter g outq)) \<subseteq> set (newfiles g) \<union> File ` set outq"
proof (induction outq arbitrary: g)
  case Nil
  show ?case by simp
next
  case (Cons out outq)
  have "set (newfiles (Outputter_body g out)) \<subseteq> set (newfiles g) \<union> {File out}"
    by (auto simp: Outputter_body_newfiles)
  with Cons [of "Outputter_body g out"] show ?case
    by auto
qed

lemma Outputter_globalDiff_subset:
  "set (globalDiff (Outputter g outq)) \<subseteq> set (globalDiff g) \<union> File ` set outq"
proof (induction outq arbitrary: g)
  case Nil
  show ?case by simp
next
  case (Cons out outq)
  have "set (globalDiff (Outputter_body g out)) \<subseteq> set (globalDiff g) \<union> {File out}"
    by (auto simp: Outputter_body_globalDiff)
  with Cons [of "Outputter_body g out"] show ?case
    by auto
qed

text \<open>
  Claim C1. When the \<open>Outputter\<close> has consumed the results \<open>pre\<close> and consumes the result
  \<open>out\<close>: if the path of \<open>out\<close> is not in the prior snapshot \<open>globalI\<close>, the path is
  appended to \<open>newfiles\<close> and \<open>globalDiff\<close> stays as it is; if the path is there with
  another checksum, the path is appended to \<open>globalDiff\<close> and \<open>newfiles\<close> stays as it is;
  if it is there with the same checksum, both lists stay as they are; and in every case
  the new snapshot \<open>globalO\<close> maps the path to the checksum of \<open>out\<close> afterwards.
\<close>

theorem Outputter_classifies_result:
  assumes "\<forall>x \<in> set pre. File x \<noteq> []" and "File out \<noteq> []"
  shows "(globalI g (File out) = None \<longrightarrow>
            newfiles (Outputter g (pre @ [out])) = newfiles (Outputter g pre) @ [File out] \<and>
            globalDiff (Outputter g (pre @ [out])) = globalDiff (Outputter g pre)) \<and>
         (\<forall>v. globalI g (File out) = Some v \<and> v \<noteq> Checksum out \<longrightarrow>
            globalDiff (Outputter g (pre @ [out])) = globalDiff (Outputter g pre) @ [File out] \<and>
            newfiles (Outputter g (pre @ [out])) = newfiles (Outputter g pre)) \<and>
         (globalI g (File out) = Some (Checksum out) \<longrightarrow>
            globalDiff (Outputter g (pre @ [out])) = globalDiff (Outputter g pre) \<and>
            newfiles (Outputter g (pre @ [out])) = newfiles (Outputter g pre)) \<and>
         globalO (Outputter g (pre @ [out])) (File out) = Some (Checksum out)"
proof -
  have step: "Outputter g (pre @ [out]) = Outputter_body (Outputter g pre) out"
    using assms by (rule Outputter_snoc)
  show ?thesis
    unfolding step by (simp add: Outputter_body_newfiles Outputter_body_globalDiff)
qed

theorem Outputter_classifies_result_witness:
  "newfiles (Outputter (init_globals [''a.txt'' \<mapsto> ''H1''])
      ([\<lparr>File = ''a.txt'', Checksum = ''H1''\<rparr>] @ [\<lparr>File = ''b.txt'', Checksum = ''H2''\<rparr>]))
     = [''b.txt''] \<and>
   globalDiff (Outputter (init_globals [''a.txt'' \<mapsto> ''H1''])
      ([\<lparr>File = ''a.txt'', Checksum = ''H1''\<rparr>] @ [\<lparr>File = ''b.txt'', Checksum = ''H2''\<rparr>]))
     = [] \<and>
   globalO (Outputter (init_globals [''a.txt'' \<mapsto> ''H1''])
      ([\<lparr>File = ''a.txt'', Checksum = ''H1''\<rparr>] @ [\<lparr>File = ''b.txt'', Checksum = ''H2''\<rparr>]))
      ''b.txt'' = Some ''H2''"
  using Outputter_classifies_result
    [of "[\<lparr>File = ''a.txt'', Checksum = ''H1''\<rparr>]" "\<lparr>File = ''b.txt'', Checksum = ''H2''\<rparr>"
        "init_globals [''a.txt'' \<mapsto> ''H1'']"]
  by (simp add: init_globals_def Outputter_body_def)

lemma lists_within_snapshot_init: "lists_within_snapshot (init_globals prior)"
  by (simp add: lists_within_snapshot_def init_globals_def)

lemma lists_within_snapshot_body:
  "lists_within_snapshot g \<Longrightarrow> lists_within_snapshot (Outputter_body g out)"
  by (auto simp: lists_within_snapshot_def Outputter_body_newfiles Outputter_body_globalDiff
           split: if_splits)

lemma lists_within_snapshot_Outputter:
  "lists_within_snapshot g \<Longrightarrow> lists_within_snapshot (Outputter g outq)"
  by (induction outq arbitrary: g) (simp_all add: lists_within_snapshot_body)

text \<open>
  Claim C10. The invariant holds of the globals the program starts with, every iteration
  of the \<open>Outputter\<close> keeps it, and so does every run of the loop: the change lists never
  name a path that has no entry in the snapshot under construction.
\<close>

theorem change_lists_within_snapshot:
  assumes "lists_within_snapshot g"
  shows "lists_within_snapshot (Outputter_body g out) \<and>
         lists_within_snapshot (Outputter g outq) \<and>
         lists_within_snapshot (Outputter (init_globals prior) outq)"
  using assms lists_within_snapshot_init
  by (simp add: lists_within_snapshot_body lists_within_snapshot_Outputter)

theorem change_lists_within_snapshot_witness:
  "lists_within_snapshot (init_globals [''a.txt'' \<mapsto> ''H1'']) \<and>
   lists_within_snapshot
     (Outputter_body (init_globals [''a.txt'' \<mapsto> ''H1'']) \<lparr>File = ''a.txt'', Checksum = ''H3''\<rparr>) \<and>
   globalDiff
     (Outputter_body (init_globals [''a.txt'' \<mapsto> ''H1'']) \<lparr>File = ''a.txt'', Checksum = ''H3''\<rparr>)
     = [''a.txt'']"
proof -
  have h: "lists_within_snapshot (init_globals [''a.txt'' \<mapsto> ''H1''])"
    by (rule lists_within_snapshot_init)
  have d: "globalDiff
     (Outputter_body (init_globals [''a.txt'' \<mapsto> ''H1'']) \<lparr>File = ''a.txt'', Checksum = ''H3''\<rparr>)
     = [''a.txt'']"
    by (simp add: Outputter_body_globalDiff init_globals_def)
  from change_lists_within_snapshot [OF h]
  have "lists_within_snapshot
     (Outputter_body (init_globals [''a.txt'' \<mapsto> ''H1'']) \<lparr>File = ''a.txt'', Checksum = ''H3''\<rparr>)"
    by blast
  with h d show ?thesis by blast
qed

text \<open>
  Claim C8, as stated, fails: \<open>globalO\<close> starts empty (line 57) and only the \<open>Outputter\<close>
  writes to it, so a path of the prior snapshot for which this scan produces no result
  has no entry in the new snapshot. Here \<open>gone.txt\<close> is in the prior snapshot and
  no result names it.
\<close>

theorem stale_entry_dropped_counterexample:
  "globalI (Outputter (init_globals [''a.txt'' \<mapsto> ''H1'', ''gone.txt'' \<mapsto> ''H0''])
              [\<lparr>File = ''a.txt'', Checksum = ''H1''\<rparr>]) ''gone.txt'' = Some ''H0'' \<and>
   ''gone.txt'' \<notin> File ` set [\<lparr>File = ''a.txt'', Checksum = ''H1''\<rparr>] \<and>
   globalO (Outputter (init_globals [''a.txt'' \<mapsto> ''H1'', ''gone.txt'' \<mapsto> ''H0''])
              [\<lparr>File = ''a.txt'', Checksum = ''H1''\<rparr>]) ''gone.txt'' = None"
  by (simp add: init_globals_def)

text \<open>
  Claim C8, amended. A path for which the scan produces no result (whether the prior
  snapshot has it or not) has no entry in the new snapshot, and is in neither change
  list: its prior entry is dropped, and it is never flagged as missing.
\<close>

theorem unvisited_path_absent:
  assumes "p \<notin> File ` set outq"
  shows "globalO (Outputter (init_globals prior) outq) p = None \<and>
         p \<notin> set (newfiles (Outputter (init_globals prior) outq)) \<and>
         p \<notin> set (globalDiff (Outputter (init_globals prior) outq))"
proof -
  have "globalO (Outputter (init_globals prior) outq) p = globalO (init_globals prior) p"
    using assms by (rule Outputter_globalO_other)
  moreover have "set (newfiles (Outputter (init_globals prior) outq)) \<subseteq> File ` set outq"
    using Outputter_newfiles_subset [of "init_globals prior" outq]
    by (simp add: init_globals_def)
  moreover have "set (globalDiff (Outputter (init_globals prior) outq)) \<subseteq> File ` set outq"
    using Outputter_globalDiff_subset [of "init_globals prior" outq]
    by (simp add: init_globals_def)
  ultimately show ?thesis
    using assms by (auto simp: init_globals_def)
qed

theorem unvisited_path_absent_witness:
  "''gone.txt'' \<notin> File ` set [\<lparr>File = ''a.txt'', Checksum = ''H1''\<rparr>] \<and>
   globalO (Outputter (init_globals [''a.txt'' \<mapsto> ''H1'', ''gone.txt'' \<mapsto> ''H0''])
              [\<lparr>File = ''a.txt'', Checksum = ''H1''\<rparr>]) ''gone.txt'' = None \<and>
   ''gone.txt'' \<notin> set (newfiles (Outputter (init_globals [''a.txt'' \<mapsto> ''H1'', ''gone.txt'' \<mapsto> ''H0''])
              [\<lparr>File = ''a.txt'', Checksum = ''H1''\<rparr>]))"
  using unvisited_path_absent
    [of "''gone.txt''" "[\<lparr>File = ''a.txt'', Checksum = ''H1''\<rparr>]"
        "[''a.txt'' \<mapsto> ''H1'', ''gone.txt'' \<mapsto> ''H0'']"]
  by simp

subsection \<open>Properties of the checksum function\<close>

lemma float64_exponent_small: "n < 2 ^ 53 \<Longrightarrow> float64_exponent n = 0"
  by (simp add: float64_exponent.simps)

lemma float64_exponent_large:
  "2 ^ 53 \<le> n \<Longrightarrow> float64_exponent n = Suc (float64_exponent (n div 2))"
  by (subst float64_exponent.simps) simp

lemma float64_of_nat_exact: "n < 2 ^ 53 \<Longrightarrow> float64_of_nat n = n"
  by (simp add: float64_of_nat_def float64_exponent_small)

lemma float64_exact: "n < 2 ^ 53 \<Longrightarrow> float64 (int n) = real n"
  by (simp add: float64_def float64_of_nat_exact)

lemma float64_CHUNKSIZE: "float64 (int CHUNKSIZE) = 8192"
  by (simp add: float64_def float64_of_nat_exact CHUNKSIZE_def)

lemma float64_significand:
  "2 ^ 53 \<le> n \<Longrightarrow> 2 ^ 52 \<le> n div 2 ^ float64_exponent n"
proof (induction n rule: float64_exponent.induct)
  case (1 n)
  show ?case
  proof (cases "n div 2 < 2 ^ 53")
    case True
    then have "float64_exponent n = Suc 0"
      using "1.prems" by (simp add: float64_exponent_large float64_exponent_small)
    moreover have "(2::nat) ^ 52 \<le> n div 2"
      using "1.prems" by simp
    ultimately show ?thesis by simp
  next
    case False
    then have "2 ^ 52 \<le> (n div 2) div 2 ^ float64_exponent (n div 2)"
      using "1.IH" "1.prems" by simp
    moreover have "float64_exponent n = Suc (float64_exponent (n div 2))"
      using "1.prems" by (rule float64_exponent_large)
    ultimately show ?thesis
      by (simp add: div_mult2_eq)
  qed
qed

lemma float64_of_nat_large: 
  assumes "2 ^ 53 \<le> n" shows "2 ^ 52 \<le> float64_of_nat n"
proof -
  let ?e = "float64_exponent n"
  have "2 ^ 52 \<le> n div 2 ^ ?e" using assms by (rule float64_significand)
  also have "\<dots> \<le> (n div 2 ^ ?e) * 2 ^ ?e" by simp
  also have "\<dots> \<le> float64_of_nat n"
    by (simp add: float64_of_nat_def Let_def)
  finally show ?thesis .
qed

lemma float64_of_nat_ge_chunk: "8192 \<le> n \<Longrightarrow> 8192 \<le> float64_of_nat n"
proof (cases "n < 2 ^ 53")
  case True
  assume "8192 \<le> n"
  with True show ?thesis by (simp add: float64_of_nat_exact)
next
  case False
  then have "2 ^ 52 \<le> float64_of_nat n"
    using float64_of_nat_large [of n] by simp
  then show ?thesis by simp
qed

lemma blocksize_exact:
  assumes "filesize < 2 ^ 53" and "i * CHUNKSIZE < filesize"
  shows "int_of_float (math_Min (float64 (int CHUNKSIZE))
           (float64 (int filesize - int (i * CHUNKSIZE))))
         = int (min CHUNKSIZE (filesize - i * CHUNKSIZE))"
proof -
  have "int filesize - int (i * CHUNKSIZE) = int (filesize - i * CHUNKSIZE)"
    using assms(2) by simp
  moreover have "filesize - i * CHUNKSIZE < 2 ^ 53"
    using assms(1) by simp
  ultimately have "float64 (int filesize - int (i * CHUNKSIZE)) = real (filesize - i * CHUNKSIZE)"
    by (simp only: float64_exact)
  then show ?thesis
    apply (simp only: float64_CHUNKSIZE math_Min_def int_of_float_def)
    apply (simp add: CHUNKSIZE_def min_def)
    done
qed


lemma blocksize_full:
  assumes "i * CHUNKSIZE + CHUNKSIZE \<le> filesize"
  shows "int_of_float (math_Min (float64 (int CHUNKSIZE))
           (float64 (int filesize - int (i * CHUNKSIZE))))
         = int CHUNKSIZE"
proof -
  have eq: "int filesize - int (i * CHUNKSIZE) = int (filesize - i * CHUNKSIZE)"
    using assms by simp
  have "8192 \<le> filesize - i * CHUNKSIZE"
    using assms by (simp add: CHUNKSIZE_def)
  then have "8192 \<le> float64_of_nat (filesize - i * CHUNKSIZE)"
    by (rule float64_of_nat_ge_chunk)
  then have "8192 \<le> real (float64_of_nat (filesize - i * CHUNKSIZE))"
    by linarith
  then have "8192 \<le> float64 (int (filesize - i * CHUNKSIZE))"
    by (simp add: float64_def)
  then show ?thesis
    unfolding eq
    apply (simp only: float64_CHUNKSIZE math_Min_def int_of_float_def)
    apply (simp add: CHUNKSIZE_def min_def)
    done
qed

lemma ceil_div_chunk: "nat \<lceil>real n / 8192\<rceil> = (n + 8191) div 8192"
proof -
  have a: "real n / 8192 = real_of_int (int n) / real_of_int 8192"
    by simp
  have s1: "\<lceil>real_of_int (int n) / real_of_int 8192\<rceil> = - (- int n div 8192)"
    by (rule ceiling_divide_eq_div)
  have s2: "- (- int n div 8192) = (int n + 8191) div 8192"
    by linarith
  have s3: "(int n + 8191) div 8192 = int ((n + 8191) div 8192)"
    by (simp add: zdiv_int)
  have "\<lceil>real n / 8192\<rceil> = int ((n + 8191) div 8192)"
    by (simp only: a s1 s2 s3)
  then show ?thesis
    by (simp only: nat_int)
qed

lemma blocks_exact:
  assumes "filesize < 2 ^ 53"
  shows "uint64_of_float (math_Ceil (float64 (int filesize) / float64 (int CHUNKSIZE)))
         = (filesize + 8191) div 8192"
proof -
  have "float64 (int filesize) = real filesize"
    using assms by (rule float64_exact)
  then have "uint64_of_float (math_Ceil (float64 (int filesize) / float64 (int CHUNKSIZE)))
         = nat \<lfloor>real_of_int \<lceil>real filesize / 8192\<rceil>\<rfloor>"
    by (simp only: float64_CHUNKSIZE uint64_of_float_def math_Ceil_def)
  also have "\<dots> = nat \<lceil>real filesize / 8192\<rceil>"
    by (simp only: floor_of_int)
  finally show ?thesis
    by (simp only: ceil_div_chunk)
qed

lemma read_loop_done: "\<not> i < blocks \<Longrightarrow> read_loop filesize blocks i content hash = Inr hash"
  by (subst read_loop.simps) simp

lemma read_loop_step:
  assumes "i < blocks"
    and "int_of_float (math_Min (float64 (int CHUNKSIZE))
           (float64 (int filesize - int (i * CHUNKSIZE)))) = int k"
  shows "read_loop filesize blocks i content hash =
         read_loop filesize blocks (i + 1) (drop k content)
           (hash @ take k content @ replicate (k - length content) 0)"
  using assms by (subst read_loop.simps) (simp add: file_Read_def)

lemma read_loop_exact:
  assumes "filesize < 2 ^ 53"
    and "blocks = (filesize + 8191) div 8192"
    and "length content = filesize - i * CHUNKSIZE"
    and "i \<le> blocks"
  shows "read_loop filesize blocks i content hash = Inr (hash @ content)"
  using assms(3,4)
proof (induction "blocks - i" arbitrary: i content hash)
  case 0
  then have "i = blocks" by simp
  then have "filesize \<le> i * CHUNKSIZE"
    using assms(2) by (simp add: CHUNKSIZE_def)
  then have "content = []"
    using "0.prems" by simp
  then show ?case
    using \<open>i = blocks\<close> by (simp add: read_loop_done)
next
  case (Suc d)
  then have less: "i < blocks" by simp
  then have rem: "i * CHUNKSIZE < filesize"
    using assms(2) by (simp add: CHUNKSIZE_def)
  let ?k = "min CHUNKSIZE (filesize - i * CHUNKSIZE)"
  have step: "read_loop filesize blocks i content hash =
      read_loop filesize blocks (i + 1) (drop ?k content)
        (hash @ take ?k content @ replicate (?k - length content) 0)"
    using less blocksize_exact [OF assms(1) rem] by (rule read_loop_step)
  have pad: "?k - length content = 0"
    using Suc.prems by simp
  have "d = blocks - (i + 1)"
    using Suc.hyps by simp
  moreover have "length (drop ?k content) = filesize - (i + 1) * CHUNKSIZE"
    using Suc.prems by (simp add: min_def CHUNKSIZE_def add.commute)
  moreover have "i + 1 \<le> blocks"
    using less by simp
  ultimately have "read_loop filesize blocks (i + 1) (drop ?k content) (hash @ take ?k content)
      = Inr ((hash @ take ?k content) @ drop ?k content)"
    by (rule Suc.hyps(1))
  then show ?case
    unfolding step pad by simp
qed

lemma read_loop_full:
  assumes "blocks * CHUNKSIZE \<le> filesize"
    and "(blocks - i) * CHUNKSIZE \<le> length content"
    and "i \<le> blocks"
  shows "read_loop filesize blocks i content hash
         = Inr (hash @ take ((blocks - i) * CHUNKSIZE) content)"
  using assms(2,3)
proof (induction "blocks - i" arbitrary: i content hash)
  case 0
  then show ?case by (simp add: read_loop_done)
next
  case (Suc d)
  then have less: "i < blocks" by simp
  then have "i * CHUNKSIZE + CHUNKSIZE \<le> blocks * CHUNKSIZE"
    by (metis Suc_leI mult_Suc mult_le_mono1 add.commute)
  then have full: "i * CHUNKSIZE + CHUNKSIZE \<le> filesize"
    using assms(1) by simp
  have step: "read_loop filesize blocks i content hash =
      read_loop filesize blocks (i + 1) (drop CHUNKSIZE content)
        (hash @ take CHUNKSIZE content @ replicate (CHUNKSIZE - length content) 0)"
    using less blocksize_full [OF full] by (rule read_loop_step)
  have d: "blocks - i = Suc (blocks - (i + 1))"
    using less by simp
  have long: "CHUNKSIZE + (blocks - (i + 1)) * CHUNKSIZE \<le> length content"
    using Suc.prems(1) unfolding d by simp
  then have pad: "CHUNKSIZE - length content = 0"
    by simp
  have "d = blocks - (i + 1)"
    using Suc.hyps by simp
  moreover have "(blocks - (i + 1)) * CHUNKSIZE \<le> length (drop CHUNKSIZE content)"
    using long by simp
  moreover have "i + 1 \<le> blocks"
    using less by simp
  ultimately have "read_loop filesize blocks (i + 1) (drop CHUNKSIZE content) (hash @ take CHUNKSIZE content)
      = Inr ((hash @ take CHUNKSIZE content) @
             take ((blocks - (i + 1)) * CHUNKSIZE) (drop CHUNKSIZE content))"
    by (rule Suc.hyps(1))
  moreover have "take ((blocks - i) * CHUNKSIZE) content
      = take CHUNKSIZE content @ take ((blocks - (i + 1)) * CHUNKSIZE) (drop CHUNKSIZE content)"
    unfolding d by (simp add: take_add)
  ultimately show ?case
    unfolding step pad by simp
qed

lemma hi_nibble: "unat (drop_bit 4 (v :: byte)) < 16"
proof -
  have "unat (drop_bit 4 v) = drop_bit 4 (unat v)"
    by (rule unat_drop_bit_eq)
  also have "\<dots> = unat v div 2 ^ 4"
    by (rule drop_bit_eq_div)
  finally have a: "unat (drop_bit 4 v) = unat v div 2 ^ 4" .
  have "unat v < 2 ^ LENGTH(8)" by (rule unsigned_less)
  then have b: "unat v div 2 ^ 4 < 16" by simp
  show ?thesis unfolding a by (rule b)
qed

lemma lo_nibble: "unat ((v :: byte) AND 0x0f) < 16"
proof -
  have "unat (v AND 0x0f) \<le> unat (0x0f :: byte)"
    by (rule word_and_le1 [THEN word_le_nat_alt [THEN iffD1]])
  then show ?thesis by simp
qed

lemma hextable_nth: "k < 16 \<Longrightarrow> hextable ! k \<in> set hextable"
  by (rule nth_mem) (simp add: hextable_def)

lemma hex_EncodeToString_chars: "set (hex_EncodeToString src) \<subseteq> set hextable"
  by (auto simp: hex_EncodeToString_def hextable_nth hi_nibble lo_nibble)

lemma hex_EncodeToString_not_PathError:
  "hex_EncodeToString src \<noteq> PathError_Error \<lparr>Op = ''open'', Path = p, Err = r\<rparr>"
proof
  assume "hex_EncodeToString src = PathError_Error \<lparr>Op = ''open'', Path = p, Err = r\<rparr>"
  then have "CHR ''o'' \<in> set (hex_EncodeToString src)"
    by (simp add: PathError_Error_def)
  then have "CHR ''o'' \<in> set hextable"
    using hex_EncodeToString_chars by blast
  then show False by (simp add: hextable_def)
qed

lemma hex_EncodeToString_example: "hex_EncodeToString [0xda, 0x39, 0xa3] = ''da39a3''"
  by (simp add: hex_EncodeToString_def hextable_def drop_bit_eq_div)

lemma checkSumSHA1_open_fails:
  "fs pathname = Inl reason \<Longrightarrow>
     checkSumSHA1 sha1_Sum fs threadID pathname fi
       = Inr (''open '' @ pathname @ '': '' @ reason)"
  by (simp add: checkSumSHA1_def os_Open_def PathError_Error_def)

lemma checkSumSHA1_whole_contents:
  assumes "fs pathname = Inr contents"
    and "sz fi = length contents"
    and "length contents < 2 ^ 53"
  shows "checkSumSHA1 sha1_Sum fs threadID pathname fi
           = Inr (hex_EncodeToString (sha1_Sum contents))"
proof -
  have small: "sz fi < 2 ^ 53"
    using assms(2,3) by simp
  have "read_loop (sz fi) ((sz fi + 8191) div 8192) 0 contents [] = Inr ([] @ contents)"
    using small by (rule read_loop_exact) (simp_all add: assms(2))
  then show ?thesis
    using assms(1) by (simp add: checkSumSHA1_def os_Open_def blocks_exact [OF small])
qed

lemma checkSumSHA1_empty_file:
  assumes "fs pathname = Inr []" and "sz fi = 0"
  shows "checkSumSHA1 sha1_Sum fs threadID pathname fi = Inr (hex_EncodeToString (sha1_Sum []))"
  using assms by (simp add: checkSumSHA1_whole_contents)

lemma float64_exponent_huge: "float64_exponent (2 ^ 54 + 1) = 2"
proof -
  have "float64_exponent (2 ^ 54 + 1) = Suc (float64_exponent ((2 ^ 54 + 1) div 2))"
    by (rule float64_exponent_large) simp
  also have "((2::nat) ^ 54 + 1) div 2 = 2 ^ 53"
    by simp
  also have "float64_exponent (2 ^ 53) = Suc (float64_exponent (2 ^ 53 div 2))"
    by (rule float64_exponent_large) simp
  also have "float64_exponent (2 ^ 53 div 2) = 0"
    by (rule float64_exponent_small) simp
  finally show ?thesis by simp
qed

lemma float64_huge: "float64 (int (2 ^ 54 + 1)) = 2 ^ 54"
proof -
  have "float64_of_nat (2 ^ 54 + 1) = 2 ^ 54"
    unfolding float64_of_nat_def float64_exponent_huge by (simp add: Let_def)
  then show ?thesis
    by (simp add: float64_def)
qed

lemma blocks_huge:
  "uint64_of_float (math_Ceil (float64 (int (2 ^ 54 + 1)) / float64 (int CHUNKSIZE))) = 2 ^ 41"
  unfolding float64_huge float64_CHUNKSIZE
  by (simp add: uint64_of_float_def math_Ceil_def)

text \<open>
  Claim C3 (the digest of the chunked loop is the digest of the file's full contents, for
  every file of declared size \<open>n\<close>; an empty file gives the digest of the empty input).
  For a file below \<open>2 ^ 53\<close> bytes whose contents have the declared length the function
  does return the digest of the full contents (\<open>checkSumSHA1_whole_contents\<close>,
  \<open>checkSumSHA1_empty_file\<close>). It does not for every file: the number of chunks is
  computed in \<open>float64\<close> (line 95), and \<open>float64(2 ^ 54 + 1)\<close> is \<open>2 ^ 54\<close>, so for a file of
  \<open>2 ^ 54 + 1\<close> bytes the loop runs \<open>2 ^ 41\<close> times, each time with a full chunk, and
  the last byte of the file never reaches the hash. Below, the file is \<open>2 ^ 54\<close> zero
  bytes followed by one byte \<open>1\<close>; the function returns the digest of the zero bytes alone.
\<close>

theorem checkSumSHA1_drops_last_byte:
  "checkSumSHA1 sha1_Sum (\<lambda>p. Inr (replicate (2 ^ 54) 0 @ [1])) threadID pathname
      \<lparr>name = pathname, sz = 2 ^ 54 + 1, mode = 0, modTime = 0\<rparr>
     = Inr (hex_EncodeToString (sha1_Sum (replicate (2 ^ 54) 0))) \<and>
   length (replicate (2 ^ 54) (0 :: byte) @ [1]) = 2 ^ 54 + 1 \<and>
   replicate (2 ^ 54) (0 :: byte) \<noteq> replicate (2 ^ 54) 0 @ [1]"
proof -
  have "read_loop (2 ^ 54 + 1) (2 ^ 41) 0 (replicate (2 ^ 54) 0 @ [1]) []
          = Inr ([] @ take ((2 ^ 41 - 0) * CHUNKSIZE) (replicate (2 ^ 54) 0 @ [1]))"
    by (rule read_loop_full) (simp_all add: CHUNKSIZE_def)
  then have "read_loop (2 ^ 54 + 1) (2 ^ 41) 0 (replicate (2 ^ 54) 0 @ [1]) []
          = Inr (replicate (2 ^ 54) 0)"
    by (simp add: CHUNKSIZE_def)
  moreover have "uint64_of_float
      (math_Ceil (float64 18014398509481985 / float64 (int CHUNKSIZE))) = 2199023255552"
    using blocks_huge by simp
  ultimately show ?thesis
    by (simp add: checkSumSHA1_def os_Open_def)
qed

text \<open>
  Claim C4, as stated, fails in its second half (the string returned for an unreadable
  file makes the file show as changed on the following runs until it is readable). The
  string is stored as the checksum of the path, and the next run computes the same
  string: \<open>/a/x\<close> cannot be opened, the first run records the string, and a second run
  over the snapshot of the first reports nothing.
\<close>

theorem unreadable_file_not_reported_counterexample:
  "checkSumSHA1 (\<lambda>b. b) (\<lambda>p. Inl ''permission denied'') 0 ''/a/x''
      \<lparr>name = ''/a/x'', sz = 3, mode = 0, modTime = 0\<rparr>
     = Inr ''open /a/x: permission denied'' \<and>
   globalO (Outputter (init_globals Map.empty)
      [\<lparr>File = ''/a/x'', Checksum = ''open /a/x: permission denied''\<rparr>])
     = [''/a/x'' \<mapsto> ''open /a/x: permission denied''] \<and>
   globalDiff (Outputter (init_globals [''/a/x'' \<mapsto> ''open /a/x: permission denied''])
      [\<lparr>File = ''/a/x'', Checksum = ''open /a/x: permission denied''\<rparr>]) = [] \<and>
   newfiles (Outputter (init_globals [''/a/x'' \<mapsto> ''open /a/x: permission denied''])
      [\<lparr>File = ''/a/x'', Checksum = ''open /a/x: permission denied''\<rparr>]) = []"
  by (simp add: checkSumSHA1_open_fails init_globals_def Outputter_body_def)

text \<open>
  Claim C4, amended. When the file cannot be opened, \<open>checkSumSHA1\<close> returns the
  description of the error, \<open>open <path>: <reason>\<close>, in place of a digest, and does not
  abort. The \<open>Outputter\<close> treats the string as any checksum: no report when the prior
  snapshot holds the same string; the path goes to \<open>globalDiff\<close> when the prior snapshot
  holds a digest, to \<open>newfiles\<close> when it holds nothing; and when the file is readable
  again its digest differs from the string, so the path goes to \<open>globalDiff\<close> on that
  run.
\<close>

theorem open_failure_is_a_checksum:
  assumes "fs pathname = Inl reason"
  shows "checkSumSHA1 sha1_Sum fs threadID pathname fi
           = Inr (''open '' @ pathname @ '': '' @ reason) \<and>
         (globalI g pathname = Some (''open '' @ pathname @ '': '' @ reason) \<longrightarrow>
            globalDiff (Outputter_body g
                \<lparr>File = pathname, Checksum = ''open '' @ pathname @ '': '' @ reason\<rparr>)
              = globalDiff g \<and>
            newfiles (Outputter_body g
                \<lparr>File = pathname, Checksum = ''open '' @ pathname @ '': '' @ reason\<rparr>)
              = newfiles g) \<and>
         (globalI g pathname = Some (hex_EncodeToString digest) \<longrightarrow>
            globalDiff (Outputter_body g
                \<lparr>File = pathname, Checksum = ''open '' @ pathname @ '': '' @ reason\<rparr>)
              = globalDiff g @ [pathname]) \<and>
         (globalI g pathname = None \<longrightarrow>
            newfiles (Outputter_body g
                \<lparr>File = pathname, Checksum = ''open '' @ pathname @ '': '' @ reason\<rparr>)
              = newfiles g @ [pathname]) \<and>
         (globalI g pathname = Some (''open '' @ pathname @ '': '' @ reason) \<longrightarrow>
            globalDiff (Outputter_body g
                \<lparr>File = pathname, Checksum = hex_EncodeToString digest\<rparr>)
              = globalDiff g @ [pathname])"
proof -
  have ne: "hex_EncodeToString digest \<noteq> ''open '' @ pathname @ '': '' @ reason"
    using hex_EncodeToString_not_PathError [of digest pathname reason]
    by (simp add: PathError_Error_def)
  show ?thesis
    using assms ne
    by (simp add: checkSumSHA1_open_fails Outputter_body_globalDiff Outputter_body_newfiles)
qed

theorem open_failure_is_a_checksum_witness:
  "checkSumSHA1 (\<lambda>b. b) (\<lambda>p. Inl ''permission denied'') 0 ''/a/x''
      \<lparr>name = ''/a/x'', sz = 3, mode = 0, modTime = 0\<rparr>
     = Inr ''open /a/x: permission denied'' \<and>
   globalDiff (Outputter_body (init_globals [''/a/x'' \<mapsto> ''da39''])
      \<lparr>File = ''/a/x'', Checksum = ''open /a/x: permission denied''\<rparr>) = [''/a/x'']"
  using open_failure_is_a_checksum
    [of "\<lambda>p. Inl ''permission denied''" "''/a/x''" "''permission denied''" "\<lambda>b. b" 0
        "\<lparr>name = ''/a/x'', sz = 3, mode = 0, modTime = 0\<rparr>"
        "init_globals [''/a/x'' \<mapsto> ''da39'']" "[0xda, 0x39]"]
  by (simp add: init_globals_def hex_EncodeToString_def hextable_def drop_bit_eq_div)



subsection \<open>Properties of the walker\<close>

lemma filepath_Join_examples:
  "filepath_Join ''/folder/a'' ''var'' = ''/folder/a/var''"
  "filepath_Join ''./p'' ''k'' = ''p/k''"
  "filepath_Join ''/a//b/'' ''k'' = ''/a/b/k''"
  "filepath_Join ''a/../..'' ''k'' = ''../k''"
  by (simp_all add: filepath_Join_def filepath_Clean_def)

lemma inSlice_iff: "inSlice words word \<longleftrightarrow> word \<in> set words"
  by (induction words) auto

lemma walkPathNSum_SkipDir_iff:
  "fst (walkPathNSum Ignored currentRoot pathname (Some fi) st) = Some SkipDir
     \<longleftrightarrow> inSlice Ignored (currentRoot @ Name fi)"
  by (simp add: walkPathNSum_def)

lemma walkPathNSum_ignored:
  "inSlice Ignored (currentRoot @ Name fi) \<Longrightarrow>
     walkPathNSum Ignored currentRoot pathname (Some fi) st = (Some SkipDir, st)"
  by (simp add: walkPathNSum_def)

lemma walk_ignored:
  "inSlice Ignored (currentRoot @ Name fi) \<Longrightarrow>
     walk (walkPathNSum Ignored currentRoot) pathname (Node fi readable entries) st
       = (Some SkipDir, st)"
  by (simp add: walkPathNSum_ignored)

lemma walkPathNSum_symlink:
  "Mode fi AND ModeSymlink \<noteq> 0 \<Longrightarrow>
     snd (walkPathNSum Ignored currentRoot pathname (Some fi) st) = st"
  by (simp add: walkPathNSum_def)

lemma walk_symlink:
  "Mode fi AND ModeSymlink \<noteq> 0 \<Longrightarrow> \<not> IsDir fi \<Longrightarrow>
     snd (walk (walkPathNSum Ignored currentRoot) pathname (Node fi readable entries) st) = st"
  by (simp add: walkPathNSum_symlink)

lemma walkPathNSum_no_symlink:
  "no_symlink_queued st \<Longrightarrow>
     no_symlink_queued (snd (walkPathNSum Ignored currentRoot pathname f st))"
  by (auto simp: walkPathNSum_def no_symlink_queued_def split: option.splits)

lemma walk_preserves:
  assumes fn: "\<And>p f st. P st \<Longrightarrow> P (snd (walkFn p f st))"
  shows "P st \<Longrightarrow> P (snd (walk walkFn path found st))"
    and "P st \<Longrightarrow> P (snd (walk_names walkFn path entries st))"
  using fn
proof (induction walkFn path found st and walkFn path entries st rule: walk_walk_names.induct)
  case (1 walkFn path n st)
  then show ?case by simp
next
  case (2 walkFn path info readable entries st)
  from "2.prems" have keep: "\<And>p f st. P st \<Longrightarrow> P (snd (walkFn p f st))" and st: "P st"
    by blast+
  obtain err1 st1 where r: "walkFn path (Some info) st = (err1, st1)"
    by (cases "walkFn path (Some info) st")
  have st1: "P st1"
    using keep [OF st, of path "Some info"] r by simp
  have "IsDir info \<Longrightarrow> readable \<Longrightarrow> err1 = None \<Longrightarrow>
          P (snd (walk_names walkFn path entries st1))"
    using "2.IH" [OF _ r [symmetric]] st1 keep by blast
  then show ?case
    using st1 r by auto
next
  case (3 walkFn path st)
  then show ?case by simp
next
  case (4 walkFn path n entries st)
  from "4.prems" have keep: "\<And>p f st. P st \<Longrightarrow> P (snd (walkFn p f st))" and st: "P st"
    by blast+
  obtain err st1 where r: "walkFn (filepath_Join path n) None st = (err, st1)"
    by (cases "walkFn (filepath_Join path n) None st")
  have st1: "P st1"
    using keep [OF st, of "filepath_Join path n" None] r by simp
  have "\<not> (err \<noteq> None \<and> err \<noteq> Some SkipDir) \<Longrightarrow>
          P (snd (walk_names walkFn path entries st1))"
    using "4.IH" [OF r [symmetric]] st1 keep by blast
  then show ?case
    using st1 r by auto
next
  case (5 walkFn path info readable sub entries st)
  from "5.prems" have keep: "\<And>p f st. P st \<Longrightarrow> P (snd (walkFn p f st))" and st: "P st"
    by blast+
  obtain err st1 where
    r: "walk walkFn (filepath_Join path (Name info)) (Node info readable sub) st = (err, st1)"
    by (cases "walk walkFn (filepath_Join path (Name info)) (Node info readable sub) st")
  have st1: "P st1"
    using "5.IH"(1) [OF st keep] r by simp
  have "\<not> (err \<noteq> None \<and> (\<not> IsDir info \<or> err \<noteq> Some SkipDir)) \<Longrightarrow>
          P (snd (walk_names walkFn path entries st1))"
    using "5.IH"(2) [OF r [symmetric]] st1 keep by blast
  then show ?case
    using st1 r by auto
qed


lemma walk_no_symlink:
  "no_symlink_queued st \<Longrightarrow>
     no_symlink_queued (snd (walk (walkPathNSum Ignored currentRoot) path found st))"
  by (rule walk_preserves(1)) (simp_all add: walkPathNSum_no_symlink)

lemma filepath_Walk_no_symlink:
  "no_symlink_queued st \<Longrightarrow>
     no_symlink_queued (filepath_Walk (walkPathNSum Ignored currentRoot) rootpath found st)"
  by (simp add: filepath_Walk_def walk_no_symlink)

lemma walk_folders_no_symlink:
  "no_symlink_queued st \<Longrightarrow> walk_folders Ignored lstat evalSymlinks Folders st = Inr st'
     \<Longrightarrow> no_symlink_queued st'"
proof (induction Folders arbitrary: st)
  case Nil
  then show ?case by simp
next
  case (Cons rootpath Folders)
  show ?case
  proof (cases "lstat rootpath")
    case (NoInfo n)
    with Cons.prems show ?thesis by simp
  next
    case (Node fileInfo readable entries)
    with Cons.prems show ?thesis
      by (auto simp: Let_def filepath_Walk_no_symlink elim!: Cons.IH [rotated])
  qed
qed

lemma walk_folders_symlink_root:
  assumes "lstat rootpath = Node fileInfo readable entries"
    and "Mode fileInfo AND ModeSymlink \<noteq> 0"
    and "evalSymlinks rootpath = Some target"
  shows "walk_folders Ignored lstat evalSymlinks (rootpath # Folders) st =
         walk_folders Ignored lstat evalSymlinks Folders
           (filepath_Walk (walkPathNSum Ignored target) target (lstat target) st)"
  using assms by simp

lemma walk_folders_plain_root:
  assumes "lstat rootpath = Node fileInfo readable entries"
    and "Mode fileInfo AND ModeSymlink = 0"
  shows "walk_folders Ignored lstat evalSymlinks (rootpath # Folders) st =
         walk_folders Ignored lstat evalSymlinks Folders
           (filepath_Walk (walkPathNSum Ignored rootpath) rootpath (lstat rootpath) st)"
  using assms by simp

lemma mode_of_directory: "(2147484141 :: 32 word) AND ModeSymlink = 0"
  "(2147484141 :: 32 word) AND ModeDir \<noteq> 0"
  by (simp_all add: ModeSymlink_def ModeDir_def)

lemma mode_of_file: "(420 :: 32 word) AND ModeSymlink = 0" "(420 :: 32 word) AND ModeDir = 0"
  by (simp_all add: ModeSymlink_def ModeDir_def)

lemma mode_of_symlink: "(134218239 :: 32 word) AND ModeSymlink \<noteq> 0"
  "(134218239 :: 32 word) AND ModeDir = 0"
  by (simp_all add: ModeSymlink_def ModeDir_def)

text \<open>
  Claim C5 (an entry is skipped, with the subtree under it, exactly when its full path is
  an ignore entry; for a folder that is a symbolic link the configured name is the
  prefix) does not hold of the program. The walk function compares
  \<open>currentRoot + f.Name()\<close> with the ignore entries (line 116): the root and the base name
  of the entry, with no separator between them, and \<open>currentRoot\<close> is the resolved
  target of a folder that is a symbolic link (lines 220-222). With the configuration of
  the program's own usage message (line 174: folder \<open>/folder/a\<close>, ignore entry
  \<open>/folder/a/var\<close>) the full path of the directory \<open>var\<close> is an ignore entry, the string
  compared is \<open>/folder/avar\<close>, the walk function returns \<open>nil\<close> for the directory, and
  the file in it is queued. In the deployment, with the ignore entry \<open>/www/live/cache\<close>
  under the configured folder \<open>/www/live\<close>, the file in \<open>cache\<close> is queued as well.
\<close>

theorem usage_example_not_ignored:
  "inSlice [''/folder/a/var''] (filepath_Join ''/folder/a'' ''var'') \<and>
   walkPathNSum [''/folder/a/var''] ''/folder/a'' ''/folder/a/var''
       (Some \<lparr>Name = ''var'', Size = 4096, Mode = 2147484141, ModTime = 0\<rparr>)
       \<lparr>ferrors = [], wrkQueue = []\<rparr>
     = (None, \<lparr>ferrors = [], wrkQueue = []\<rparr>) \<and>
   walk_folders [''/folder/a/var''] usage_lstat (\<lambda>p. None) [''/folder/a'']
       \<lparr>ferrors = [], wrkQueue = []\<rparr>
     = Inr \<lparr>ferrors = [],
            wrkQueue = [\<lparr>name = ''/folder/a/var/x'', sz = 3, mode = 420, modTime = 0\<rparr>]\<rparr> \<and>
   walk_folders [''/www/live/cache''] deploy_lstat deploy_evalSymlinks [''/www/live'']
       \<lparr>ferrors = [], wrkQueue = []\<rparr>
     = Inr \<lparr>ferrors = [],
            wrkQueue = [\<lparr>name = ''/www/rel/7/cache/tmp'', sz = 9, mode = 420, modTime = 0\<rparr>,
                        \<lparr>name = ''/www/rel/7/index.php'', sz = 3, mode = 420, modTime = 0\<rparr>]\<rparr>"
  by (simp add: filepath_Join_def filepath_Clean_def walkPathNSum_def usage_lstat_def deploy_lstat_def
        deploy_evalSymlinks_def filepath_Walk_def IsDir_def
        mode_of_directory mode_of_file mode_of_symlink)

text \<open>
  Claim C7. For a symbolic link met during the walk the walk function returns without
  queueing anything, and \<open>walk\<close> does not descend into it; so no descriptor queued by the
  walks of all folders is one of a symbolic link, and only queued descriptors are
  checksummed. A configured folder that is a symbolic link is resolved by one call of
  \<open>filepath.EvalSymlinks\<close> before the walk, and the walk runs on what \<open>os.Lstat\<close> finds at
  the target.
\<close>

theorem symlinks_skipped_root_resolved:
  assumes "no_symlink_queued st"
  shows "(Mode fi AND ModeSymlink \<noteq> 0 \<longrightarrow>
            snd (walkPathNSum Ignored currentRoot pathname (Some fi) st) = st) \<and>
         (Mode fi AND ModeSymlink \<noteq> 0 \<and> \<not> IsDir fi \<longrightarrow>
            snd (walk (walkPathNSum Ignored currentRoot) pathname (Node fi readable entries) st)
              = st) \<and>
         (\<forall>st'. walk_folders Ignored lstat evalSymlinks Folders st = Inr st' \<longrightarrow>
            no_symlink_queued st') \<and>
         (lstat rootpath = Node fileInfo r e \<and> Mode fileInfo AND ModeSymlink \<noteq> 0 \<and>
          evalSymlinks rootpath = Some target \<longrightarrow>
            walk_folders Ignored lstat evalSymlinks (rootpath # Folders) st =
            walk_folders Ignored lstat evalSymlinks Folders
              (filepath_Walk (walkPathNSum Ignored target) target (lstat target) st))"
proof -
  have "\<forall>st'. walk_folders Ignored lstat evalSymlinks Folders st = Inr st' \<longrightarrow>
            no_symlink_queued st'"
    using assms walk_folders_no_symlink by blast
  then show ?thesis
    using walkPathNSum_symlink [of fi Ignored currentRoot pathname st]
      walk_symlink [of fi Ignored currentRoot pathname readable entries st]
      walk_folders_symlink_root [of lstat rootpath fileInfo r e evalSymlinks target Ignored Folders st]
    by blast
qed

theorem symlinks_skipped_root_resolved_witness:
  "no_symlink_queued \<lparr>ferrors = [], wrkQueue = []\<rparr> \<and>
   walk_folders [] deploy_lstat deploy_evalSymlinks [''/www/live''] \<lparr>ferrors = [], wrkQueue = []\<rparr>
     = Inr \<lparr>ferrors = [],
            wrkQueue = [\<lparr>name = ''/www/rel/7/cache/tmp'', sz = 9, mode = 420, modTime = 0\<rparr>,
                        \<lparr>name = ''/www/rel/7/index.php'', sz = 3, mode = 420, modTime = 0\<rparr>]\<rparr> \<and>
   no_symlink_queued \<lparr>ferrors = [],
            wrkQueue = [\<lparr>name = ''/www/rel/7/cache/tmp'', sz = 9, mode = 420, modTime = 0\<rparr>,
                        \<lparr>name = ''/www/rel/7/index.php'', sz = 3, mode = 420, modTime = 0\<rparr>]\<rparr>"
proof -
  have init: "no_symlink_queued \<lparr>ferrors = [], wrkQueue = []\<rparr>"
    by (simp add: no_symlink_queued_def)
  have l: "deploy_lstat ''/www/live'' =
      Node \<lparr>Name = ''live'', Size = 12, Mode = 134218239, ModTime = 0\<rparr> False []"
    by (simp add: deploy_lstat_def)
  have e: "deploy_evalSymlinks ''/www/live'' = Some ''/www/rel/7''"
    by (simp add: deploy_evalSymlinks_def)
  note rule = symlinks_skipped_root_resolved
    [OF init, of _ _ _ _ _ _ deploy_lstat deploy_evalSymlinks _ "''/www/live''"
        "\<lparr>Name = ''live'', Size = 12, Mode = 134218239, ModTime = 0\<rparr>" False "[]"
        "''/www/rel/7''"]
  have "walk_folders [] deploy_lstat deploy_evalSymlinks [''/www/live'']
      \<lparr>ferrors = [], wrkQueue = []\<rparr>
     = walk_folders [] deploy_lstat deploy_evalSymlinks []
        (filepath_Walk (walkPathNSum [] ''/www/rel/7'') ''/www/rel/7''
           (deploy_lstat ''/www/rel/7'') \<lparr>ferrors = [], wrkQueue = []\<rparr>)"
    using rule [of _ "[]" _ _ _ _ "[]"] l e mode_of_symlink(1) by simp
  also have "\<dots> = Inr \<lparr>ferrors = [],
            wrkQueue = [\<lparr>name = ''/www/rel/7/cache/tmp'', sz = 9, mode = 420, modTime = 0\<rparr>,
                        \<lparr>name = ''/www/rel/7/index.php'', sz = 3, mode = 420, modTime = 0\<rparr>]\<rparr>"
    by (simp add: filepath_Join_def filepath_Clean_def walkPathNSum_def deploy_lstat_def filepath_Walk_def IsDir_def
        mode_of_directory mode_of_file mode_of_symlink)
  finally have w: "walk_folders [] deploy_lstat deploy_evalSymlinks [''/www/live'']
      \<lparr>ferrors = [], wrkQueue = []\<rparr>
     = Inr \<lparr>ferrors = [],
            wrkQueue = [\<lparr>name = ''/www/rel/7/cache/tmp'', sz = 9, mode = 420, modTime = 0\<rparr>,
                        \<lparr>name = ''/www/rel/7/index.php'', sz = 3, mode = 420, modTime = 0\<rparr>]\<rparr>" .
  have "no_symlink_queued \<lparr>ferrors = [],
            wrkQueue = [\<lparr>name = ''/www/rel/7/cache/tmp'', sz = 9, mode = 420, modTime = 0\<rparr>,
                        \<lparr>name = ''/www/rel/7/index.php'', sz = 3, mode = 420, modTime = 0\<rparr>]\<rparr>"
    using rule [of _ "[]" _ _ _ _ "[''/www/live'']"] w by blast
  with init w show ?thesis by blast
qed



subsection \<open>Properties of the goroutines\<close>

text \<open>
  Claim C2 (the new snapshot is written only after every result has been processed, and
  the end of the \<open>Outputter\<close> never rests on a timeout) does not hold of the program:
  \<open>main\<close> waits for the workers (line 229), not for the \<open>Outputter\<close>, for which it
  sleeps three seconds (line 230, with the comment \<open>// outputter\<close>). When the workers have
  returned, the \<open>Outputter\<close> has received every result, and may still hold the last one.
  With one worker and one file, this run ends with the snapshot written empty while the
  \<open>Outputter\<close> holds the result for \<open>/a/x\<close>: the worker gets the descriptor and hands its
  result to the \<open>Outputter\<close>, \<open>main\<close> sends the \<open>nil\<close>, the worker returns, \<open>main\<close> passes
  \<open>wg.Wait()\<close>, sleeps and writes \<open>globalO\<close>.
\<close>

theorem snapshot_written_before_result_processed:
  "reachable (\<lambda>j p f. ''H1'') 1 Map.empty [\<lparr>name = ''/a/x'', sz = 3, mode = 420, modTime = 0\<rparr>]
     \<lparr>pc = Finished, workers = [Returned],
      outp = OutGot \<lparr>File = ''/a/x'', Checksum = ''H1''\<rparr>, wg = 0,
      glob = init_globals Map.empty, storage = Some Map.empty\<rparr>"
proof -
  let ?cwf = "\<lambda>(j::nat) (p::string) (f::fInfo). ''H1''"
  let ?f = "\<lparr>name = ''/a/x'', sz = 3, mode = 420, modTime = 0\<rparr>"
  let ?out = "\<lparr>File = ''/a/x'', Checksum = ''H1''\<rparr>"
  let ?g = "init_globals Map.empty"
  let ?R = "reachable ?cwf 1 Map.empty [?f]"
  have "?R \<lparr>pc = Walking [?f], workers = [AtReceive], outp = OutReceive, wg = 1,
            glob = ?g, storage = None\<rparr>"
    using reachable.start [of ?cwf 1 Map.empty "[?f]"] by (simp add: init_program_def)
  from reachable.after [OF this send_work [where j = 0]]
  have "?R \<lparr>pc = Walking [], workers = [AtSend ?out], outp = OutReceive, wg = 1,
            glob = ?g, storage = None\<rparr>"
    by (simp add: result_of_def)
  from reachable.after [OF this worker_send [where j = 0]]
  have "?R \<lparr>pc = Walking [], workers = [AtReceive], outp = OutGot ?out, wg = 1,
            glob = ?g, storage = None\<rparr>"
    by simp
  from reachable.after [OF this walk_over]
  have "?R \<lparr>pc = Sentinels 0, workers = [AtReceive], outp = OutGot ?out, wg = 1,
            glob = ?g, storage = None\<rparr>"
    by simp
  from reachable.after [OF this send_nil [where j = 0]]
  have "?R \<lparr>pc = Sentinels 1, workers = [AtDone], outp = OutGot ?out, wg = 1,
            glob = ?g, storage = None\<rparr>"
    by simp
  from reachable.after [OF this sentinels_over]
  have "?R \<lparr>pc = Waiting, workers = [AtDone], outp = OutGot ?out, wg = 1,
            glob = ?g, storage = None\<rparr>"
    by simp
  from reachable.after [OF this worker_done [where j = 0]]
  have "?R \<lparr>pc = Waiting, workers = [Returned], outp = OutGot ?out, wg = 0,
            glob = ?g, storage = None\<rparr>"
    by simp
  from reachable.after [OF this wait_over]
  have "?R \<lparr>pc = Sleeping, workers = [Returned], outp = OutGot ?out, wg = 0,
            glob = ?g, storage = None\<rparr>"
    by simp
  from reachable.after [OF this sleep_over]
  show ?thesis
    by (simp add: init_globals_def)
qed

lemma count_update:
  "j < length xs \<Longrightarrow>
     length (filter P (xs[j := y])) + (if P (xs ! j) then 1 else 0)
       = length (filter P xs) + (if P y then 1 else 0)"
proof (induction xs arbitrary: j)
  case Nil
  then show ?case by simp
next
  case (Cons x xs)
  show ?case
  proof (cases j)
    case 0
    then show ?thesis by simp
  next
    case (Suc k)
    with Cons.prems have "k < length xs" by simp
    from Cons.IH [OF this] Suc show ?thesis by simp
  qed
qed

lemma count_update_same:
  "j < length xs \<Longrightarrow> P (xs ! j) = P y \<Longrightarrow>
     length (filter P (xs[j := y])) = length (filter P xs)"
  using count_update [of j xs P y] by (simp split: if_splits)

lemma count_update_gain:
  "j < length xs \<Longrightarrow> \<not> P (xs ! j) \<Longrightarrow> P y \<Longrightarrow>
     length (filter P (xs[j := y])) = Suc (length (filter P xs))"
  using count_update [of j xs P y] by simp

lemma count_update_loss:
  "j < length xs \<Longrightarrow> P (xs ! j) \<Longrightarrow> \<not> P y \<Longrightarrow>
     length (filter P (xs[j := y])) = length (filter P xs) - 1"
  using count_update [of j xs P y] by simp

lemma not_all_Returned:
  "j < length ws \<Longrightarrow> ws ! j \<noteq> Returned \<Longrightarrow> \<not> (\<forall>w \<in> set ws. w = Returned)"
  using nth_mem by blast

lemma shutdown_inv_init: "shutdown_inv N (init_program N prior queue)"
  by (simp add: shutdown_inv_def init_program_def sentinels_received_def)

lemma shutdown_inv_step:
  assumes "step cwf N s s'" and "shutdown_inv N s"
  shows "shutdown_inv N s'"
  using assms
proof (cases rule: step.cases)
  case (send_work f fs j)
  with assms(2) show ?thesis
    by (simp add: shutdown_inv_def sentinels_received_def count_update_same)
next
  case walk_over
  with assms(2) show ?thesis
    by (simp add: shutdown_inv_def sentinels_received_def)
next
  case (send_nil i j)
  with assms(2) show ?thesis
    by (simp add: shutdown_inv_def sentinels_received_def count_update_same count_update_gain)
next
  case (sentinels_over i)
  with assms(2) show ?thesis
    by (simp add: shutdown_inv_def sentinels_received_def)
next
  case (worker_done j)
  with assms(2) have "\<not> (\<forall>w \<in> set (workers s). w = Returned)"
    by (intro not_all_Returned [of j]) simp_all
  with worker_done assms(2) show ?thesis
    by (cases "pc s")
      (simp_all add: shutdown_inv_def sentinels_received_def count_update_same count_update_loss)
next
  case wait_over
  with assms(2) show ?thesis
    by (auto simp: shutdown_inv_def sentinels_received_def filter_empty_conv)
next
  case sleep_over
  with assms(2) show ?thesis
    by (simp add: shutdown_inv_def sentinels_received_def)
next
  case (worker_send j out)
  with assms(2) have "\<not> (\<forall>w \<in> set (workers s). w = Returned)"
    by (intro not_all_Returned [of j]) simp_all
  with worker_send assms(2) show ?thesis
    by (cases "pc s")
      (simp_all add: shutdown_inv_def sentinels_received_def count_update_same)
next
  case (out_body out)
  with assms(2) show ?thesis
    by (simp add: shutdown_inv_def sentinels_received_def split: main_pc.splits)
next
  case (out_break out)
  with assms(2) show ?thesis
    by (simp add: shutdown_inv_def sentinels_received_def split: main_pc.splits)
qed

lemma shutdown_inv_reachable:
  "reachable cwf N prior queue s \<Longrightarrow> shutdown_inv N s"
  by (induction rule: reachable.induct) (simp_all add: shutdown_inv_init shutdown_inv_step)


lemma worker_returns_after_nil:
  assumes "step cwf N s s'" and "j < length (workers s)"
    and "workers s' ! j = Returned" and "workers s ! j \<noteq> Returned"
  shows "workers s ! j = AtDone \<and> wg s' = wg s - 1"
  using assms by (cases rule: step.cases) (auto simp: nth_list_update split: if_splits)

lemma worker_gets_nil_from_main:
  assumes "step cwf N s s'" and "j < length (workers s)"
    and "workers s' ! j = AtDone" and "workers s ! j \<noteq> AtDone"
  shows "workers s ! j = AtReceive \<and> (\<exists>i. pc s = Sentinels i \<and> i < N \<and> pc s' = Sentinels (i + 1))"
  using assms by (cases rule: step.cases) (auto simp: nth_list_update split: if_splits)

lemma worker_receives_no_more:
  assumes "step cwf N s s'" and "j < length (workers s)"
    and "workers s ! j = AtDone \<or> workers s ! j = Returned"
  shows "workers s' ! j = AtDone \<or> workers s' ! j = Returned"
  using assms by (cases rule: step.cases) (auto simp: nth_list_update split: if_splits)

lemma main_waits_for_wg:
  assumes "step cwf N s s'" and "pc s' = Sleeping" and "pc s \<noteq> Sleeping"
  shows "pc s = Waiting \<and> wg s = 0"
  using assms by (cases rule: step.cases) auto

lemma sentinels_after_walk:
  assumes "step cwf N s s'" and "pc s' = Sentinels i"
  shows "pc s = Walking [] \<or> (\<exists>k. pc s = Sentinels k)"
  using assms by (cases rule: step.cases) auto

lemma sum_list_update:
  "j < length ws \<Longrightarrow>
     sum_list (map f (ws[j := w])) + f (ws ! j) = sum_list (map f ws) + (f w :: nat)"
proof (induction ws arbitrary: j)
  case Nil
  then show ?case by simp
next
  case (Cons v ws)
  show ?case
  proof (cases j)
    case 0
    then show ?thesis by simp
  next
    case (Suc k)
    with Cons.prems have "k < length ws" by simp
    from Cons.IH [OF this] Suc show ?thesis by simp
  qed
qed

lemma step_decreases:
  assumes "step cwf N s s'"
  shows "work_left s' < work_left s"
  using assms
proof (cases rule: step.cases)
  case (send_work f fs j)
  then show ?thesis
    using sum_list_update [of j "workers s" worker_weight "AtSend (result_of cwf j f)"]
    by (simp add: work_left_def)
next
  case walk_over
  then show ?thesis by (simp add: work_left_def)
next
  case (send_nil i j)
  then show ?thesis
    using sum_list_update [of j "workers s" worker_weight AtDone]
    by (simp add: work_left_def)
next
  case (sentinels_over i)
  then show ?thesis by (simp add: work_left_def)
next
  case (worker_done j)
  then show ?thesis
    using sum_list_update [of j "workers s" worker_weight Returned]
    by (simp add: work_left_def)
next
  case wait_over
  then show ?thesis by (simp add: work_left_def)
next
  case sleep_over
  then show ?thesis by (simp add: work_left_def)
next
  case (worker_send j out)
  then show ?thesis
    using sum_list_update [of j "workers s" worker_weight AtReceive]
    by (simp add: work_left_def)
next
  case (out_body out)
  then show ?thesis by (simp add: work_left_def)
next
  case (out_break out)
  then show ?thesis by (simp add: work_left_def)
qed

lemma results_named_init:
  "\<forall>f \<in> set queue. name f \<noteq> [] \<Longrightarrow> results_named (init_program N prior queue)"
  by (simp add: results_named_def init_program_def pending_def)

lemma in_set_update: "x \<in> set (ws[j := w]) \<Longrightarrow> x = w \<or> x \<in> set ws"
  using set_update_subset_insert [of ws j w] by blast

lemma results_named_step:
  assumes "step cwf N s s'" and inv: "results_named s"
  shows "results_named s'"
  using assms(1)
proof (cases rule: step.cases)
  case (send_work f fs j)
  have "name f \<noteq> []" "\<forall>g \<in> set fs. name g \<noteq> []"
    using inv send_work by (simp_all add: results_named_def pending_def)
  then show ?thesis
    using inv send_work
    by (auto simp: results_named_def pending_def result_of_def dest!: in_set_update)
next
  case walk_over
  then show ?thesis
    using inv by (simp add: results_named_def pending_def)
next
  case (send_nil i j)
  then show ?thesis
    using inv by (auto simp: results_named_def pending_def dest!: in_set_update)
next
  case (sentinels_over i)
  then show ?thesis
    using inv by (simp add: results_named_def pending_def)
next
  case (worker_done j)
  then show ?thesis
    using inv by (auto simp: results_named_def pending_def dest!: in_set_update)
next
  case wait_over
  then show ?thesis
    using inv by (simp add: results_named_def pending_def)
next
  case sleep_over
  then show ?thesis
    using inv by (simp add: results_named_def pending_def)
next
  case (worker_send j out)
  then have "AtSend out \<in> set (workers s)"
    using nth_mem [of j "workers s"] by simp
  then have "File out \<noteq> []"
    using inv by (simp add: results_named_def)
  then show ?thesis
    using inv worker_send by (auto simp: results_named_def pending_def dest!: in_set_update)
next
  case (out_body out)
  then show ?thesis
    using inv by (simp add: results_named_def pending_def)
next
  case (out_break out)
  then show ?thesis
    using inv by (simp add: results_named_def)
qed

lemma results_named_reachable:
  assumes "reachable cwf N prior queue s" and "\<forall>f \<in> set queue. name f \<noteq> []"
  shows "results_named s"
  using assms
  by (induction rule: reachable.induct) (simp_all add: results_named_init results_named_step)

lemma sending_worker_moves:
  assumes "j < length (workers s)" and "workers s ! j = AtSend out"
    and "results_named s" and "pc s \<noteq> Finished"
  shows "\<exists>s'. step cwf N s s'"
proof (cases "outp s")
  case OutReceive
  from worker_send [OF assms(1,2) OutReceive assms(4)] show ?thesis
    by blast
next
  case (OutGot got)
  then have "length (File got) \<noteq> 0"
    using assms(3) by (simp add: results_named_def)
  from out_body [OF OutGot this assms(4)] show ?thesis
    by blast
next
  case OutReturned
  then show ?thesis
    using assms(3) by (simp add: results_named_def)
qed

lemma worker_without_nil:
  assumes "j < length (workers s)" and "workers s ! j \<noteq> AtDone" and "workers s ! j \<noteq> Returned"
  shows "workers s ! j = AtReceive \<or> (\<exists>out. workers s ! j = AtSend out)"
  using assms by (cases "workers s ! j") simp_all

lemma some_worker_without_nil:
  assumes "sentinels_received s < length (workers s)"
  shows "\<exists>j < length (workers s). workers s ! j \<noteq> AtDone \<and> workers s ! j \<noteq> Returned"
proof -
  have "\<not> (\<forall>w \<in> set (workers s). w = AtDone \<or> w = Returned)"
  proof
    assume "\<forall>w \<in> set (workers s). w = AtDone \<or> w = Returned"
    then have "filter (\<lambda>w. w = AtDone \<or> w = Returned) (workers s) = workers s"
      by (simp add: filter_id_conv)
    then show False
      using assms by (simp add: sentinels_received_def)
  qed
  then show ?thesis
    by (metis in_set_conv_nth)
qed

lemma not_stuck:
  assumes inv: "shutdown_inv N s" and named: "results_named s"
    and N: "0 < N" and live: "pc s \<noteq> Finished"
  shows "\<exists>s'. step cwf N s s'"
proof (cases "pc s")
  case (Walking fs)
  show ?thesis
  proof (cases fs)
    case Nil
    from walk_over [of s] Walking Nil show ?thesis by blast
  next
    case (Cons f rest)
    have "sentinels_received s < length (workers s)"
      using inv N Walking by (simp add: shutdown_inv_def)
    then obtain j where j: "j < length (workers s)"
        "workers s ! j \<noteq> AtDone" "workers s ! j \<noteq> Returned"
      using some_worker_without_nil by blast
    from worker_without_nil [OF j] show ?thesis
    proof
      assume "workers s ! j = AtReceive"
      from send_work [of s f rest j, OF _ j(1) this] Walking Cons show ?thesis
        by blast
    next
      assume "\<exists>out. workers s ! j = AtSend out"
      then show ?thesis
        using sending_worker_moves [OF j(1) _ named live] by blast
    qed
  qed
next
  case (Sentinels i)
  show ?thesis
  proof (cases "i < N")
    case True
    then have "sentinels_received s < length (workers s)"
      using inv Sentinels by (simp add: shutdown_inv_def)
    then obtain j where j: "j < length (workers s)"
        "workers s ! j \<noteq> AtDone" "workers s ! j \<noteq> Returned"
      using some_worker_without_nil by blast
    from worker_without_nil [OF j] show ?thesis
    proof
      assume "workers s ! j = AtReceive"
      from send_nil [OF Sentinels True j(1) this] show ?thesis
        by blast
    next
      assume "\<exists>out. workers s ! j = AtSend out"
      then show ?thesis
        using sending_worker_moves [OF j(1) _ named live] by blast
    qed
  next
    case False
    from sentinels_over [OF Sentinels False] show ?thesis
      by blast
  qed
next
  case Waiting
  show ?thesis
  proof (cases "wg s = 0")
    case True
    from wait_over [OF Waiting True] show ?thesis
      by blast
  next
    case False
    then have "filter (\<lambda>w. w \<noteq> Returned) (workers s) \<noteq> []"
      using inv by (auto simp: shutdown_inv_def)
    then obtain w where w: "w \<in> set (workers s)" "w \<noteq> Returned"
      by (auto simp: filter_empty_conv)
    then obtain j where j: "j < length (workers s)" "workers s ! j = w"
      by (auto simp: in_set_conv_nth)
    have "\<not> sentinels_received s < length (workers s)"
      using inv Waiting by (simp add: shutdown_inv_def)
    then have "w = AtDone \<or> w = Returned"
      using length_filter_less [OF w(1), of "\<lambda>w. w = AtDone \<or> w = Returned"]
      by (auto simp: sentinels_received_def)
    then have "workers s ! j = AtDone"
      using w(2) j(2) by simp
    from worker_done [OF j(1) this live] show ?thesis
      by blast
  qed
next
  case Sleeping
  from sleep_over [OF Sleeping] show ?thesis
    by blast
next
  case Finished
  then show ?thesis
    using live by simp
qed

lemma holder_of_nil_can_return:
  assumes "shutdown_inv N s" and "j < length (workers s)" and "workers s ! j = AtDone"
  shows "step cwf N s (s\<lparr>workers := (workers s)[j := Returned], wg := wg s - 1\<rparr>) \<and> 0 < wg s"
proof -
  have w: "workers s ! j \<in> set (workers s)"
    using assms(2) by (rule nth_mem)
  then have "\<not> (\<forall>w \<in> set (workers s). w = Returned)"
    using assms(3) by auto
  then have live: "pc s \<noteq> Finished"
    using assms(1) by (auto simp: shutdown_inv_def)
  have "filter (\<lambda>w. w \<noteq> Returned) (workers s) \<noteq> []"
    using w assms(3) by (auto simp: filter_empty_conv)
  then have "0 < wg s"
    using assms(1) by (simp add: shutdown_inv_def)
  with worker_done [OF assms(2,3) live] show ?thesis
    by blast
qed

lemma sentinel_phase:
  assumes "reachable cwf N prior queue
             \<lparr>pc = Sentinels 0, workers = replicate N AtReceive, outp = OutReceive, wg = N,
              glob = G, storage = None\<rparr>"
    and "k \<le> N"
  shows "reachable cwf N prior queue
           \<lparr>pc = Sentinels k, workers = replicate k Returned @ replicate (N - k) AtReceive,
            outp = OutReceive, wg = N - k, glob = G, storage = None\<rparr>"
  using assms(2)
proof (induction k)
  case 0
  show ?case using assms(1) by simp
next
  case (Suc k)
  then have k: "k < N" by simp
  define m where "m = N - Suc k"
  have Nk: "N - k = Suc m"
    using k by (simp add: m_def)
  have "reachable cwf N prior queue
           \<lparr>pc = Sentinels k, workers = replicate k Returned @ AtReceive # replicate m AtReceive,
            outp = OutReceive, wg = Suc m, glob = G, storage = None\<rparr>"
    using Suc.IH k by (simp add: Nk)
  from reachable.after [OF this send_nil [where j = k and i = k]]
  have "reachable cwf N prior queue
           \<lparr>pc = Sentinels (Suc k), workers = replicate k Returned @ AtDone # replicate m AtReceive,
            outp = OutReceive, wg = Suc m, glob = G, storage = None\<rparr>"
    using k by (simp add: nth_append list_update_append)
  from reachable.after [OF this worker_done [where j = k]]
  have "reachable cwf N prior queue
           \<lparr>pc = Sentinels (Suc k), workers = replicate k Returned @ Returned # replicate m AtReceive,
            outp = OutReceive, wg = m, glob = G, storage = None\<rparr>"
    by (simp add: nth_append list_update_append)
  then show ?case
    by (simp add: m_def replicate_app_Cons_same)
qed

lemma shutdown_run:
  assumes "reachable cwf N prior queue
             \<lparr>pc = Walking [], workers = replicate N AtReceive, outp = OutReceive, wg = N,
              glob = G, storage = None\<rparr>"
  shows "reachable cwf N prior queue
           \<lparr>pc = Finished, workers = replicate N Returned, outp = OutReceive, wg = 0,
            glob = G, storage = Some (globalO G)\<rparr>"
proof -
  from reachable.after [OF assms walk_over]
  have "reachable cwf N prior queue
             \<lparr>pc = Sentinels 0, workers = replicate N AtReceive, outp = OutReceive, wg = N,
              glob = G, storage = None\<rparr>"
    by simp
  from sentinel_phase [OF this, of N]
  have "reachable cwf N prior queue
           \<lparr>pc = Sentinels N, workers = replicate N Returned, outp = OutReceive, wg = 0,
            glob = G, storage = None\<rparr>"
    by simp
  from reachable.after [OF this sentinels_over]
  have "reachable cwf N prior queue
           \<lparr>pc = Waiting, workers = replicate N Returned, outp = OutReceive, wg = 0,
            glob = G, storage = None\<rparr>"
    by simp
  from reachable.after [OF this wait_over]
  have "reachable cwf N prior queue
           \<lparr>pc = Sleeping, workers = replicate N Returned, outp = OutReceive, wg = 0,
            glob = G, storage = None\<rparr>"
    by simp
  from reachable.after [OF this sleep_over]
  show ?thesis
    by simp
qed

lemma one_file_run:
  assumes "0 < N" and "name f \<noteq> []"
  shows "reachable cwf N prior [f]
           \<lparr>pc = Finished, workers = replicate N Returned, outp = OutReceive, wg = 0,
            glob = Outputter_body (init_globals prior) (result_of cwf 0 f),
            storage = Some (globalO (Outputter_body (init_globals prior) (result_of cwf 0 f)))\<rparr>"
proof -
  obtain n where N: "N = Suc n"
    using assms(1) by (cases N) simp_all
  have "reachable cwf N prior [f]
           \<lparr>pc = Walking [f], workers = AtReceive # replicate n AtReceive, outp = OutReceive,
            wg = N, glob = init_globals prior, storage = None\<rparr>"
    using reachable.start [of cwf N prior "[f]"] by (simp add: init_program_def N)
  from reachable.after [OF this send_work [where j = 0]]
  have "reachable cwf N prior [f]
           \<lparr>pc = Walking [], workers = AtSend (result_of cwf 0 f) # replicate n AtReceive,
            outp = OutReceive, wg = N, glob = init_globals prior, storage = None\<rparr>"
    by simp
  from reachable.after [OF this worker_send [where j = 0]]
  have "reachable cwf N prior [f]
           \<lparr>pc = Walking [], workers = AtReceive # replicate n AtReceive,
            outp = OutGot (result_of cwf 0 f), wg = N, glob = init_globals prior,
            storage = None\<rparr>"
    by simp
  from reachable.after [OF this out_body]
  have "reachable cwf N prior [f]
           \<lparr>pc = Walking [], workers = replicate N AtReceive,
            outp = OutReceive, wg = N,
            glob = Outputter_body (init_globals prior) (result_of cwf 0 f), storage = None\<rparr>"
    using assms(2) by (simp add: N result_of_def)
  then show ?thesis
    by (rule shutdown_run)
qed

lemma reachable_always_finishes:
  assumes "reachable cwf N prior queue s" and "0 < N" and "\<forall>f \<in> set queue. name f \<noteq> []"
  shows "always_finishes cwf N s"
  using assms(1)
proof (induction "work_left s" arbitrary: s rule: less_induct)
  case less
  show ?case
  proof (cases "pc s = Finished")
    case True
    then show ?thesis by (rule always_finishes.there)
  next
    case False
    have "shutdown_inv N s"
      using less.prems by (rule shutdown_inv_reachable)
    moreover have "results_named s"
      using less.prems assms(3) by (rule results_named_reachable)
    ultimately have "\<exists>s'. step cwf N s s'"
      using assms(2) False by (rule not_stuck)
    moreover have "\<forall>s'. step cwf N s s' \<longrightarrow> always_finishes cwf N s'"
    proof (intro allI impI)
      fix s'
      assume st: "step cwf N s s'"
      then have "work_left s' < work_left s"
        by (rule step_decreases)
      moreover have "reachable cwf N prior queue s'"
        using less.prems st by (rule reachable.after)
      ultimately show "always_finishes cwf N s'"
        by (rule less.hyps)
    qed
    ultimately show ?thesis
      by (rule always_finishes.onward)
  qed
qed

text \<open>
  Claim C6. In every state of a run: there are \<open>N\<close> workers; while \<open>main\<close> walks no worker
  has received a \<open>nil\<close>, in the loop of line 226 as many workers have received one as
  the loop has sent, and after the loop all \<open>N\<close> have; \<open>main\<close> is past \<open>wg.Wait()\<close> only
  when every worker has returned. In every step: a worker that has received its \<open>nil\<close>
  receives nothing more; a worker comes to have a \<open>nil\<close> only from the receive of line
  138, by a send of the loop of line 226; a worker returns only from having received
  \<open>nil\<close>, taking one off the \<open>WaitGroup\<close>; \<open>main\<close> leaves \<open>wg.Wait()\<close> only when the counter
  is zero and all workers have returned; and the loop of line 226 starts only when the
  walks are over. And the steps are there to take: in the loop of line 226 \<open>main\<close> can
  hand a \<open>nil\<close> to any worker at its receive; a worker with a \<open>nil\<close> can call \<open>wg.Done()\<close>
  and return, the counter being positive; \<open>main\<close> can leave \<open>wg.Wait()\<close> once all workers
  have returned; and with at least one worker and a name on every descriptor, every run
  goes on until \<open>main\<close> is through, whatever the order of the steps.
\<close>

theorem shutdown_protocol:
  assumes "reachable cwf N prior queue s"
  shows "length (workers s) = N \<and>
         (case pc s of
            Walking fs \<Rightarrow> sentinels_received s = 0
          | Sentinels i \<Rightarrow> sentinels_received s = i \<and> i \<le> N
          | _ \<Rightarrow> sentinels_received s = N) \<and>
         (pc s = Sleeping \<or> pc s = Finished \<longrightarrow> (\<forall>w \<in> set (workers s). w = Returned)) \<and>
         (\<forall>s' j. step cwf N s s' \<and> j < N \<and> (workers s ! j = AtDone \<or> workers s ! j = Returned)
            \<longrightarrow> workers s' ! j = AtDone \<or> workers s' ! j = Returned) \<and>
         (\<forall>s' j. step cwf N s s' \<and> j < N \<and> workers s' ! j = AtDone \<and> workers s ! j \<noteq> AtDone
            \<longrightarrow> workers s ! j = AtReceive \<and>
                (\<exists>i. pc s = Sentinels i \<and> i < N \<and> pc s' = Sentinels (i + 1))) \<and>
         (\<forall>s' j. step cwf N s s' \<and> j < N \<and> workers s' ! j = Returned \<and> workers s ! j \<noteq> Returned
            \<longrightarrow> workers s ! j = AtDone \<and> wg s' = wg s - 1) \<and>
         (\<forall>s'. step cwf N s s' \<and> pc s' = Sleeping \<and> pc s \<noteq> Sleeping
            \<longrightarrow> pc s = Waiting \<and> wg s = 0 \<and> (\<forall>w \<in> set (workers s). w = Returned)) \<and>
         (\<forall>s' i. step cwf N s s' \<and> pc s' = Sentinels i
            \<longrightarrow> pc s = Walking [] \<or> (\<exists>k. pc s = Sentinels k)) \<and>
         (\<forall>i j. pc s = Sentinels i \<and> i < N \<and> j < N \<and> workers s ! j = AtReceive
            \<longrightarrow> step cwf N s (s\<lparr>pc := Sentinels (i + 1), workers := (workers s)[j := AtDone]\<rparr>)) \<and>
         (\<forall>j. j < N \<and> workers s ! j = AtDone
            \<longrightarrow> step cwf N s (s\<lparr>workers := (workers s)[j := Returned], wg := wg s - 1\<rparr>) \<and>
                0 < wg s) \<and>
         (pc s = Waiting \<and> (\<forall>w \<in> set (workers s). w = Returned)
            \<longrightarrow> step cwf N s (s\<lparr>pc := Sleeping\<rparr>)) \<and>
         (0 < N \<and> (\<forall>f \<in> set queue. name f \<noteq> []) \<longrightarrow> always_finishes cwf N s)"
proof -
  have inv: "shutdown_inv N s"
    using assms by (rule shutdown_inv_reachable)
  then have len: "length (workers s) = N"
    by (simp add: shutdown_inv_def)
  have "\<forall>s'. step cwf N s s' \<and> pc s' = Sleeping \<and> pc s \<noteq> Sleeping
            \<longrightarrow> pc s = Waiting \<and> wg s = 0 \<and> (\<forall>w \<in> set (workers s). w = Returned)"
  proof (intro allI impI)
    fix s'
    assume a: "step cwf N s s' \<and> pc s' = Sleeping \<and> pc s \<noteq> Sleeping"
    then have w: "pc s = Waiting \<and> wg s = 0"
      using main_waits_for_wg by blast
    moreover from a inv have "shutdown_inv N s'"
      using shutdown_inv_step by blast
    with a have "\<forall>w \<in> set (workers s'). w = Returned"
      by (simp add: shutdown_inv_def)
    moreover from a w have "workers s' = workers s"
      by (auto elim: step.cases)
    ultimately show "pc s = Waiting \<and> wg s = 0 \<and> (\<forall>w \<in> set (workers s). w = Returned)"
      by simp
  qed
  moreover have "\<forall>s' j. step cwf N s s' \<and> j < N \<and> (workers s ! j = AtDone \<or> workers s ! j = Returned)
            \<longrightarrow> workers s' ! j = AtDone \<or> workers s' ! j = Returned"
    using worker_receives_no_more len by blast
  moreover have "\<forall>s' j. step cwf N s s' \<and> j < N \<and> workers s' ! j = AtDone \<and> workers s ! j \<noteq> AtDone
            \<longrightarrow> workers s ! j = AtReceive \<and>
                (\<exists>i. pc s = Sentinels i \<and> i < N \<and> pc s' = Sentinels (i + 1))"
    using worker_gets_nil_from_main len by blast
  moreover have "\<forall>s' j. step cwf N s s' \<and> j < N \<and> workers s' ! j = Returned \<and> workers s ! j \<noteq> Returned
            \<longrightarrow> workers s ! j = AtDone \<and> wg s' = wg s - 1"
    using worker_returns_after_nil len by blast
  moreover have "\<forall>s' i. step cwf N s s' \<and> pc s' = Sentinels i
            \<longrightarrow> pc s = Walking [] \<or> (\<exists>k. pc s = Sentinels k)"
    using sentinels_after_walk by blast
  moreover have "\<forall>i j. pc s = Sentinels i \<and> i < N \<and> j < N \<and> workers s ! j = AtReceive
            \<longrightarrow> step cwf N s (s\<lparr>pc := Sentinels (i + 1), workers := (workers s)[j := AtDone]\<rparr>)"
    using send_nil [of s _ N _ cwf] len by blast
  moreover have "\<forall>j. j < N \<and> workers s ! j = AtDone
            \<longrightarrow> step cwf N s (s\<lparr>workers := (workers s)[j := Returned], wg := wg s - 1\<rparr>) \<and>
                0 < wg s"
    using holder_of_nil_can_return [OF inv] len by blast
  moreover have "pc s = Waiting \<and> (\<forall>w \<in> set (workers s). w = Returned)
            \<longrightarrow> step cwf N s (s\<lparr>pc := Sleeping\<rparr>)"
  proof
    assume a: "pc s = Waiting \<and> (\<forall>w \<in> set (workers s). w = Returned)"
    then have "filter (\<lambda>w. w \<noteq> Returned) (workers s) = []"
      by (simp add: filter_empty_conv)
    then have "wg s = 0"
      using inv by (simp add: shutdown_inv_def)
    with a show "step cwf N s (s\<lparr>pc := Sleeping\<rparr>)"
      using wait_over by blast
  qed
  moreover have "0 < N \<and> (\<forall>f \<in> set queue. name f \<noteq> []) \<longrightarrow> always_finishes cwf N s"
    using reachable_always_finishes [OF assms] by blast
  ultimately show ?thesis
    using inv by (simp add: shutdown_inv_def)
qed

theorem shutdown_protocol_witness:
  "reachable (\<lambda>j p f. ''H1'') 2 Map.empty [\<lparr>name = ''/a/x'', sz = 3, mode = 420, modTime = 0\<rparr>]
     \<lparr>pc = Finished, workers = [Returned, Returned], outp = OutReceive, wg = 0,
      glob = \<lparr>globalI = Map.empty, globalO = [''/a/x'' \<mapsto> ''H1''], globalDiff = [],
              newfiles = [''/a/x'']\<rparr>,
      storage = Some [''/a/x'' \<mapsto> ''H1'']\<rparr> \<and>
   sentinels_received
     \<lparr>pc = Finished, workers = [Returned, Returned], outp = OutReceive, wg = 0,
      glob = \<lparr>globalI = Map.empty, globalO = [''/a/x'' \<mapsto> ''H1''], globalDiff = [],
              newfiles = [''/a/x'']\<rparr>,
      storage = Some [''/a/x'' \<mapsto> ''H1'']\<rparr> = 2 \<and>
   always_finishes (\<lambda>j p f. ''H1'') 2
     (init_program 2 Map.empty [\<lparr>name = ''/a/x'', sz = 3, mode = 420, modTime = 0\<rparr>])"
proof -
  let ?cwf = "\<lambda>(j::nat) (p::string) (f::fInfo). ''H1''"
  let ?f = "\<lparr>name = ''/a/x'', sz = 3, mode = 420, modTime = 0\<rparr>"
  let ?F = "\<lparr>pc = Finished, workers = [Returned, Returned], outp = OutReceive, wg = 0,
      glob = \<lparr>globalI = Map.empty, globalO = [''/a/x'' \<mapsto> ''H1''], globalDiff = [],
              newfiles = [''/a/x'']\<rparr>,
      storage = Some [''/a/x'' \<mapsto> ''H1'']\<rparr>"
  have r: "reachable ?cwf 2 Map.empty [?f] ?F"
    using one_file_run [of 2 ?f ?cwf Map.empty]
    by (simp add: numeral_2_eq_2 result_of_def init_globals_def Outputter_body_def)
  have "sentinels_received ?F = 2"
    using shutdown_protocol [OF r] by simp
  moreover have "always_finishes ?cwf 2 (init_program 2 Map.empty [?f])"
    using shutdown_protocol [OF reachable.start [of ?cwf 2 Map.empty "[?f]"]] by simp
  ultimately show ?thesis
    using r by simp
qed

subsection \<open>The order in which the results arrive\<close>

text \<open>
  \<open>checkSumSHA1\<close> does not use its \<open>threadID\<close>: the checksum of a file is the same
  whichever worker computes it.
\<close>

lemma checkSumSHA1_any_worker:
  "checkSumSHA1 sha1_Sum fs i pathname fi = checkSumSHA1 sha1_Sum fs j pathname fi"
  by (simp add: checkSumSHA1_def)











lemma in_flight_pc [simp]: "in_flight (s\<lparr>pc := p\<rparr>) = in_flight s"
  by (simp add: in_flight_def)

lemma in_flight_wg [simp]: "in_flight (s\<lparr>wg := n\<rparr>) = in_flight s"
  by (simp add: in_flight_def)

lemma in_flight_storage [simp]: "in_flight (s\<lparr>storage := x\<rparr>) = in_flight s"
  by (simp add: in_flight_def)

lemma in_flight_glob [simp]: "in_flight (s\<lparr>glob := x\<rparr>) = in_flight s"
  by (simp add: in_flight_def)

lemma pending_other [simp]:
  "pending (s\<lparr>workers := ws\<rparr>) = pending s"
  "pending (s\<lparr>wg := n\<rparr>) = pending s"
  "pending (s\<lparr>storage := x\<rparr>) = pending s"
  "pending (s\<lparr>glob := g\<rparr>) = pending s"
  "pending (s\<lparr>outp := ou\<rparr>) = pending s"
  by (simp_all add: pending_def)










end
